theory Spec2Isabelle
  imports Main
begin

section \<open>Text and characters\<close>

text \<open>
  The engine of \<^verbatim>\<open>ChatInterface.tsx\<close> edits the diagram as text. Instructions and
  documents are modelled as \<^typ>\<open>string\<close>: sequences of the code units below 256, that is
  ISO Latin-1 text. \<open>lowers\<close> and \<open>uppers\<close> are the letters with a counterpart in the
  other case inside that range: the ASCII letters and the Latin-1 letters from \<^verbatim>\<open>U+00E0\<close>
  to \<^verbatim>\<open>U+00FE\<close> (without the division sign) with those from \<^verbatim>\<open>U+00C0\<close> to \<^verbatim>\<open>U+00DE\<close>
  (without the multiplication sign). \<open>upc\<close> is the canonicalisation of a character
  under the flag \<^verbatim>\<open>i\<close>; the three letters \<^verbatim>\<open>U+00B5\<close>, \<^verbatim>\<open>U+00DF\<close> and \<^verbatim>\<open>U+00FF\<close>, whose
  upper case lies outside the range or is no single character, are canonical as they
  are. \<open>lowc\<close> is the lower case of a character. The classes \<^verbatim>\<open>\w\<close> and \<^verbatim>\<open>\d\<close> are the
  ASCII ones, as without the flag \<^verbatim>\<open>u\<close>; the white space of \<^verbatim>\<open>\s\<close> below 256 is the six
  ASCII characters and the no-break space \<^verbatim>\<open>U+00A0\<close>.
\<close>

definition letters :: string where
  "letters = ''abcdefghijklmnopqrstuvwxyzABCDEFGHIJKLMNOPQRSTUVWXYZ''"

definition lowers :: string where
  "lowers = ''abcdefghijklmnopqrstuvwxyz'' @
     [CHR 0xE0, CHR 0xE1, CHR 0xE2, CHR 0xE3, CHR 0xE4, CHR 0xE5, CHR 0xE6, CHR 0xE7,
      CHR 0xE8, CHR 0xE9, CHR 0xEA, CHR 0xEB, CHR 0xEC, CHR 0xED, CHR 0xEE, CHR 0xEF,
      CHR 0xF0, CHR 0xF1, CHR 0xF2, CHR 0xF3, CHR 0xF4, CHR 0xF5, CHR 0xF6, CHR 0xF8,
      CHR 0xF9, CHR 0xFA, CHR 0xFB, CHR 0xFC, CHR 0xFD, CHR 0xFE]"

definition uppers :: string where
  "uppers = ''ABCDEFGHIJKLMNOPQRSTUVWXYZ'' @
     [CHR 0xC0, CHR 0xC1, CHR 0xC2, CHR 0xC3, CHR 0xC4, CHR 0xC5, CHR 0xC6, CHR 0xC7,
      CHR 0xC8, CHR 0xC9, CHR 0xCA, CHR 0xCB, CHR 0xCC, CHR 0xCD, CHR 0xCE, CHR 0xCF,
      CHR 0xD0, CHR 0xD1, CHR 0xD2, CHR 0xD3, CHR 0xD4, CHR 0xD5, CHR 0xD6, CHR 0xD8,
      CHR 0xD9, CHR 0xDA, CHR 0xDB, CHR 0xDC, CHR 0xDD, CHR 0xDE]"

definition digits :: string where
  "digits = ''0123456789''"

definition upc :: "char \<Rightarrow> char" where
  "upc x = (case map_of (zip lowers uppers) x of Some y \<Rightarrow> y | None \<Rightarrow> x)"

definition lowc :: "char \<Rightarrow> char" where
  "lowc x = (case map_of (zip uppers lowers) x of Some y \<Rightarrow> y | None \<Rightarrow> x)"

text \<open>
  \<^verbatim>\<open>toUpperCase\<close> and \<^verbatim>\<open>toLowerCase\<close> of a text. The source takes the upper case of
  texts captured by \<^verbatim>\<open>\w+\<close> only, which are ASCII (and of a word of the instruction in a
  branch of \<^verbatim>\<open>handleContextualChanges\<close> that needs a successful property change with
  the instruction \<^verbatim>\<open>make bigger\<close> or \<^verbatim>\<open>make smaller\<close>).
\<close>

definition toUpperCase :: "string \<Rightarrow> string" where
  "toUpperCase s = map upc s"

definition toLowerCase :: "string \<Rightarrow> string" where
  "toLowerCase s = map lowc s"

definition is_word :: "char \<Rightarrow> bool" where
  "is_word x = (x \<in> set (letters @ digits @ ''_''))"

definition is_digit :: "char \<Rightarrow> bool" where
  "is_digit x = (x \<in> set digits)"

definition is_space :: "char \<Rightarrow> bool" where
  "is_space x = (x \<in> set [CHR '' '', CHR 0x09, CHR 0x0A, CHR 0x0B, CHR 0x0C, CHR 0x0D, CHR 0xA0])"

text \<open>\<^verbatim>\<open>String.prototype.includes\<close> and the position of the first occurrence.\<close>

fun starts_with :: "string \<Rightarrow> string \<Rightarrow> bool" where
  "starts_with [] s = True"
| "starts_with (a # as) [] = False"
| "starts_with (a # as) (x # xs) = (a = x \<and> starts_with as xs)"

fun includes_str :: "string \<Rightarrow> string \<Rightarrow> bool" where
  "includes_str [] t = (t = [])"
| "includes_str (x # xs) t = (starts_with t (x # xs) \<or> includes_str xs t)"

text \<open>
  \<^verbatim>\<open>s.replace(t, r)\<close> with a string pattern \<open>t\<close>: the first occurrence of \<open>t\<close> is
  replaced, the text is unchanged when there is none. (The replacement texts of the source
  hold no \<^verbatim>\<open>$\<close>, so they are inserted as they are.)
\<close>

fun replace_first :: "string \<Rightarrow> string \<Rightarrow> string \<Rightarrow> string" where
  "replace_first [] t r = (if t = [] then r else [])"
| "replace_first (x # xs) t r =
     (if starts_with t (x # xs) then r @ drop (length t) (x # xs)
      else x # replace_first xs t r)"

section \<open>Regular expressions\<close>

text \<open>
  The fragment of JavaScript regular expressions that the source uses: character
  classes, sequence, alternation, greedy \<^verbatim>\<open>*\<close> and lazy \<^verbatim>\<open>*?\<close> over a class, capture
  groups and the word boundary \<^verbatim>\<open>\b\<close>. \<open>CUni\<close> is a literal character above
  the code units of the model (the arrow U+2192 of one pattern): no character of a text
  of the model equals it.
\<close>

datatype cset = CAny | CChar char | CNot "char list" | CWord | CDigit | CSpace | CUni nat

datatype rx =
    Eps
  | Cls cset
  | Seq rx rx
  | Alt rx rx
  | Many cset
  | Lazy cset
  | Cap nat rx
  | Bnd

text \<open>
  \<open>cmatch ic cs x\<close>: character \<open>x\<close> is in the class \<open>cs\<close>; \<open>ic\<close> is the flag \<^verbatim>\<open>i\<close>,
  under which characters are compared after canonicalisation (upper-casing).
\<close>

fun cmatch :: "bool \<Rightarrow> cset \<Rightarrow> char \<Rightarrow> bool" where
  "cmatch ic CAny x = True"
| "cmatch ic (CChar a) x = (if ic then upc a = upc x else a = x)"
| "cmatch ic (CNot as) x = (if ic then upc x \<notin> set (map upc as) else x \<notin> set as)"
| "cmatch ic CWord x = is_word x"
| "cmatch ic CDigit x = is_digit x"
| "cmatch ic CSpace x = is_space x"
| "cmatch ic (CUni n) x = False"

type_synonym caps = "(nat \<times> string) list"

text \<open>
  A matcher state: the character before the current position (for \<^verbatim>\<open>\b\<close>), the text
  from the current position on, and the captures made so far (the latest first).
\<close>

type_synonym mstate = "char option \<times> string \<times> caps"

fun greedy :: "(char \<Rightarrow> bool) \<Rightarrow> (mstate \<Rightarrow> mstate option) \<Rightarrow> mstate \<Rightarrow> mstate option" where
  "greedy ok k (p, [], c) = k (p, [], c)"
| "greedy ok k (p, x # xs, c) =
     (if ok x then
        (case greedy ok k (Some x, xs, c) of
           Some r \<Rightarrow> Some r
         | None \<Rightarrow> k (p, x # xs, c))
      else k (p, x # xs, c))"

fun lazy :: "(char \<Rightarrow> bool) \<Rightarrow> (mstate \<Rightarrow> mstate option) \<Rightarrow> mstate \<Rightarrow> mstate option" where
  "lazy ok k (p, [], c) = k (p, [], c)"
| "lazy ok k (p, x # xs, c) =
     (case k (p, x # xs, c) of
        Some r \<Rightarrow> Some r
      | None \<Rightarrow> if ok x then lazy ok k (Some x, xs, c) else None)"

definition word_before :: "char option \<Rightarrow> bool" where
  "word_before p = (case p of None \<Rightarrow> False | Some x \<Rightarrow> is_word x)"

definition word_here :: "string \<Rightarrow> bool" where
  "word_here s = (case s of [] \<Rightarrow> False | x # _ \<Rightarrow> is_word x)"

text \<open>
  The backtracking matcher, in continuation style as in the ECMAScript specification:
  \<open>rmatch ic r k st\<close> matches \<open>r\<close> at \<open>st\<close> and hands each way of matching it, in
  priority order, to the continuation \<open>k\<close>, until one succeeds.
\<close>

fun rmatch :: "bool \<Rightarrow> rx \<Rightarrow> (mstate \<Rightarrow> mstate option) \<Rightarrow> mstate \<Rightarrow> mstate option" where
  "rmatch ic Eps k st = k st"
| "rmatch ic (Cls cs) k (p, s, c) =
     (case s of [] \<Rightarrow> None
      | x # xs \<Rightarrow> if cmatch ic cs x then k (Some x, xs, c) else None)"
| "rmatch ic (Seq a b) k st = rmatch ic a (\<lambda>st'. rmatch ic b k st') st"
| "rmatch ic (Alt a b) k st =
     (case rmatch ic a k st of Some r \<Rightarrow> Some r | None \<Rightarrow> rmatch ic b k st)"
| "rmatch ic (Many cs) k st = greedy (cmatch ic cs) k st"
| "rmatch ic (Lazy cs) k st = lazy (cmatch ic cs) k st"
| "rmatch ic (Cap n r) k (p, s, c) =
     rmatch ic r (\<lambda>(p', s', c'). k (p', s', (n, take (length s - length s') s) # c')) (p, s, c)"
| "rmatch ic Bnd k (p, s, c) =
     (if word_before p \<noteq> word_here s then k (p, s, c) else None)"

section \<open>Matching, searching and replacing\<close>

text \<open>One attempt at the current position: the matched text, the state behind it, the captures.\<close>

definition exec :: "bool \<Rightarrow> rx \<Rightarrow> char option \<Rightarrow> string \<Rightarrow> (string \<times> caps) option" where
  "exec ic r p s =
     (case rmatch ic r Some (p, s, []) of
        None \<Rightarrow> None
      | Some (p', s', c) \<Rightarrow> Some (take (length s - length s') s, c))"

text \<open>
  \<^verbatim>\<open>s.match(re)\<close> without the flag \<^verbatim>\<open>g\<close>: the leftmost position at which the pattern
  matches; the result is the matched text with its captures, \<open>None\<close> for \<^verbatim>\<open>null\<close>.
\<close>

fun search :: "bool \<Rightarrow> rx \<Rightarrow> char option \<Rightarrow> string \<Rightarrow> (string \<times> caps) option" where
  "search ic r p [] = exec ic r p []"
| "search ic r p (x # xs) =
     (case exec ic r p (x # xs) of
        Some m \<Rightarrow> Some m
      | None \<Rightarrow> search ic r (Some x) xs)"

definition js_match :: "bool \<Rightarrow> rx \<Rightarrow> string \<Rightarrow> (string \<times> caps) option" where
  "js_match ic r s = search ic r None s"

text \<open>Capture group \<open>n\<close> of a match; a group that took no part is \<^verbatim>\<open>undefined\<close>.\<close>

definition grp :: "caps \<Rightarrow> nat \<Rightarrow> string option" where
  "grp c n = map_of c n"

definition grp_text :: "caps \<Rightarrow> nat \<Rightarrow> string" where
  "grp_text c n = (case map_of c n of Some t \<Rightarrow> t | None \<Rightarrow> [])"

text \<open>
  The loop of the flag \<^verbatim>\<open>g\<close>: the text is cut into the characters outside every match
  and the matches, found from left to right, each search starting where the last match
  ended (one character further after an empty match). \<open>k\<close> counts the characters of the
  current match that are still to be passed.
\<close>

datatype piece = Txt char | Hit string caps

fun gscan :: "bool \<Rightarrow> rx \<Rightarrow> nat \<Rightarrow> char option \<Rightarrow> string \<Rightarrow> piece list" where
  "gscan ic r k p [] =
     (if k = 0 then (case exec ic r p [] of Some (m, c) \<Rightarrow> [Hit m c] | None \<Rightarrow> []) else [])"
| "gscan ic r k p (x # xs) =
     (if k = 0 then
        (case exec ic r p (x # xs) of
           None \<Rightarrow> Txt x # gscan ic r 0 (Some x) xs
         | Some (m, c) \<Rightarrow>
             Hit m c # (if m = [] then Txt x # gscan ic r 0 (Some x) xs
                        else gscan ic r (length m - 1) (Some x) xs))
      else gscan ic r (k - 1) (Some x) xs)"

fun hits :: "piece list \<Rightarrow> string list" where
  "hits [] = []"
| "hits (Txt x # ps) = hits ps"
| "hits (Hit m c # ps) = m # hits ps"

text \<open>\<^verbatim>\<open>s.match(re)\<close> with the flag \<^verbatim>\<open>g\<close>: the texts of all matches (\<open>[]\<close> for \<^verbatim>\<open>null\<close>).\<close>

definition match_all :: "bool \<Rightarrow> rx \<Rightarrow> string \<Rightarrow> string list" where
  "match_all ic r s = hits (gscan ic r 0 None s)"

text \<open>
  A replacement text: literal text and group references \<^verbatim>\<open>$n\<close>. (In the templates of the
  source a digit may follow \<^verbatim>\<open>$1\<close>, \<^verbatim>\<open>$2\<close>; their patterns have at most three groups, so the
  two-digit reading \<^verbatim>\<open>$nn\<close> does not apply and the digit is literal text.)
\<close>

datatype titem = TLit string | TGrp nat

fun expand :: "titem list \<Rightarrow> caps \<Rightarrow> string" where
  "expand [] c = []"
| "expand (TLit t # ts) c = t @ expand ts c"
| "expand (TGrp n # ts) c = grp_text c n @ expand ts c"

fun subst :: "titem list \<Rightarrow> piece list \<Rightarrow> string" where
  "subst t [] = []"
| "subst t (Txt x # ps) = x # subst t ps"
| "subst t (Hit m c # ps) = expand t c @ subst t ps"

text \<open>\<^verbatim>\<open>s.replace(re, t)\<close> with the flag \<^verbatim>\<open>g\<close>.\<close>

definition replace_all :: "bool \<Rightarrow> rx \<Rightarrow> titem list \<Rightarrow> string \<Rightarrow> string" where
  "replace_all ic r t s = subst t (gscan ic r 0 None s)"

text \<open>Building patterns: a literal text, a sequence, \<^verbatim>\<open>+\<close> and \<^verbatim>\<open>?\<close>.\<close>

fun lit :: "string \<Rightarrow> rx" where
  "lit [] = Eps"
| "lit (a # as) = Seq (Cls (CChar a)) (lit as)"

fun seq :: "rx list \<Rightarrow> rx" where
  "seq [] = Eps"
| "seq (r # rs) = Seq r (seq rs)"

fun alts :: "string list \<Rightarrow> rx" where
  "alts [a] = lit a"
| "alts (a # b # bs) = Alt (lit a) (alts (b # bs))"

definition Plus :: "cset \<Rightarrow> rx" where
  "Plus cs = Seq (Cls cs) (Many cs)"

definition Opt :: "rx \<Rightarrow> rx" where
  "Opt r = Alt r Eps"

section \<open>The transforms\<close>

text \<open>
  The component names that reach the transforms are captures of \<^verbatim>\<open>(\w+)\<close>, so a name put
  into a pattern by \<^verbatim>\<open>new RegExp\<close> stands for itself there (\<open>lit\<close>).

  The identifier that \<^verbatim>\<open>removeComponent\<close> puts into its connection pattern comes from the
  document and is any text without a double quote. It stands for itself unless it holds
  a syntax character of regular expressions; what \<^verbatim>\<open>new RegExp\<close> makes of such an identifier
  is the parameter \<open>syn\<close> of the model: \<open>None\<close> when the constructor throws (SyntaxError),
  else the replacement that the pattern performs.
\<close>

type_synonym synrx = "string \<Rightarrow> (string \<Rightarrow> string) option"

definition syntax_chars :: string where
  "syntax_chars = [CHR 0x5E, CHR ''$'', CHR 0x5C, CHR ''.'', CHR ''*'', CHR ''+'', CHR ''?'',
                   CHR ''('', CHR '')'', CHR ''['', CHR '']'', CHR ''{'', CHR ''}'', CHR ''|'']"

definition plain :: "string \<Rightarrow> bool" where
  "plain t = list_all (\<lambda>x. x \<notin> set syntax_chars) t"

definition dq :: string where
  "dq = [CHR 0x22]"

definition componentRegex :: "string \<Rightarrow> rx" where
  "componentRegex componentName =
     seq [lit ''<mxCell'', Many (CNot ''>''), lit (''value='' @ dq), Many (CNot dq),
          lit componentName, Many (CNot dq), lit dq, Many (CNot ''>''), lit ''>'',
          Lazy CAny, lit ''</mxCell>'']"

definition idRegex :: "string \<Rightarrow> rx" where
  "idRegex componentName =
     seq [lit (''id='' @ dq), Cap 1 (Many (CNot dq)), lit dq, Many (CNot ''>''),
          lit (''value='' @ dq), Many (CNot dq), lit componentName, Many (CNot dq), lit dq]"

definition connectionRegex :: "string \<Rightarrow> rx" where
  "connectionRegex componentId =
     seq [lit ''<mxCell'', Many (CNot ''>''), Alt (lit ''source'') (lit ''target''),
          lit (''='' @ dq), lit componentId, lit dq, Many (CNot ''>''), lit ''>'',
          Lazy CAny, lit ''</mxCell>'']"

definition edgeRegex :: rx where
  "edgeRegex =
     seq [lit ''<mxCell'', Many (CNot ''>''), lit (''edge='' @ dq @ ''1'' @ dq),
          Many (CNot ''>''), lit ''>'', Lazy CAny, lit ''</mxCell>'']"

text \<open>\<^verbatim>\<open>matches.forEach(match => { modifiedXml = modifiedXml.replace(match, '') })\<close>\<close>

fun remove_each :: "string list \<Rightarrow> string \<Rightarrow> string" where
  "remove_each [] modifiedXml = modifiedXml"
| "remove_each (m # ms) modifiedXml = remove_each ms (replace_first modifiedXml m [])"

definition removeComponent :: "synrx \<Rightarrow> string \<Rightarrow> string \<Rightarrow> bool \<times> string" where
  "removeComponent syn xml componentName =
     (let matches = match_all True (componentRegex componentName) xml in
      if matches \<noteq> [] then
        (let modifiedXml = remove_each matches xml in
         case js_match True (idRegex componentName) xml of
           None \<Rightarrow> (True, modifiedXml)
         | Some (m, c) \<Rightarrow>
             (let componentId = grp_text c 1 in
              if plain componentId
              then (True, replace_all True (connectionRegex componentId) [] modifiedXml)
              else (case syn componentId of
                      None \<Rightarrow> (False, xml)
                    | Some f \<Rightarrow> (True, f modifiedXml))))
      else (False, xml))"

definition wordRegex :: "string \<Rightarrow> rx" where
  "wordRegex fromComponent = seq [Bnd, lit fromComponent, Bnd]"

definition replaceComponent :: "string \<Rightarrow> string \<Rightarrow> string \<Rightarrow> bool \<times> string \<times> nat" where
  "replaceComponent xml fromComponent toComponent =
     (let matches = match_all True (wordRegex fromComponent) xml in
      if matches \<noteq> [] then
        (True, replace_all True (wordRegex fromComponent) [TLit (toUpperCase toComponent)] xml,
         length matches)
      else (False, xml, 0))"

text \<open>A number in a template literal: its decimal digits.\<close>

fun show_nat :: "nat \<Rightarrow> string" where
  "show_nat n =
     (if n < 10 then [digits ! n] else show_nat (n div 10) @ [digits ! (n mod 10)])"

declare show_nat.simps [simp del]

text \<open>
  \<^verbatim>\<open>connections.forEach\<close> of \<^verbatim>\<open>removeConnections\<close>: the state is \<open>(modifiedXml, removedCount)\<close>.
\<close>

fun remove_between :: "string \<Rightarrow> string \<Rightarrow> string list \<Rightarrow> string \<times> nat \<Rightarrow> string \<times> nat" where
  "remove_between component1 component2 [] st = st"
| "remove_between component1 component2 (connection # cs) (modifiedXml, removedCount) =
     remove_between component1 component2 cs
       (if includes_str connection component1 \<and> includes_str connection component2
        then (replace_first modifiedXml connection [], removedCount + 1)
        else (modifiedXml, removedCount))"

text \<open>An optional argument is truthy when it is given and not empty.\<close>

definition truthy :: "string option \<Rightarrow> bool" where
  "truthy a = (case a of None \<Rightarrow> False | Some t \<Rightarrow> t \<noteq> [])"

definition arg_text :: "string option \<Rightarrow> string" where
  "arg_text a = (case a of None \<Rightarrow> [] | Some t \<Rightarrow> t)"

definition removeConnections ::
  "string \<Rightarrow> string option \<Rightarrow> string option \<Rightarrow> bool \<times> string \<times> string" where
  "removeConnections xml component1 component2 =
     (if truthy component1 \<and> truthy component2 then
        (let c1 = arg_text component1; c2 = arg_text component2;
             connections = match_all True edgeRegex xml;
             (modifiedXml, removedCount) = remove_between c1 c2 connections (xml, 0)
         in (removedCount > 0, modifiedXml,
             ''Removed '' @ show_nat removedCount @ '' connection(s) between '' @
             toUpperCase c1 @ '' and '' @ toUpperCase c2))
      else
        (let arrows = match_all True edgeRegex xml; removedCount = length arrows in
         if removedCount > 0 then
           (True, replace_all True edgeRegex [] xml,
            ''Removed '' @ show_nat removedCount @ '' arrow(s)/connection(s) from the diagram'')
         else (False, xml, ''No connections found to remove'')))"

text \<open>
  Numbers of \<^verbatim>\<open>addComponent\<close>. JavaScript numbers are IEEE 754 doubles. \<open>Num n\<close> is the
  double with the value \<open>n\<close>, a natural number. \<open>to_double n\<close> is the double nearest to
  \<open>n\<close>: \<open>n\<close> itself below \<open>2^53\<close>; above, the 53 leading binary digits of \<open>n\<close>, rounded
  to nearest with ties to the even one; \<^verbatim>\<open>Infinity\<close> when that has more than 1024 binary digits.
  \<^verbatim>\<open>parseInt\<close> of a text of digits is taken to be the double nearest to the number that
  the digits denote (ECMAScript lets an engine replace the digits behind the twentieth by
  zeros first). \<^verbatim>\<open>Math.max()\<close> of no argument is \<^verbatim>\<open>-Infinity\<close>, and \<^verbatim>\<open>-Infinity + 1\<close> is
  \<^verbatim>\<open>-Infinity\<close>.
\<close>

datatype number = NegInfinity | Num nat | Infinity

fun bitlen :: "nat \<Rightarrow> nat" where
  "bitlen n = (if n = 0 then 0 else Suc (bitlen (n div 2)))"

declare bitlen.simps [simp del]

definition to_double :: "nat \<Rightarrow> number" where
  "to_double n =
     (let e = bitlen n - 53;
          q = n div 2 ^ e;
          r = n mod 2 ^ e;
          q' = (if 2 ^ e < 2 * r \<or> (2 * r = 2 ^ e \<and> odd q) then q + 1 else q)
      in if 1024 < bitlen (q' * 2 ^ e) then Infinity else Num (q' * 2 ^ e))"

fun math_max :: "number list \<Rightarrow> number" where
  "math_max [] = NegInfinity"
| "math_max (n # ns) =
     (case math_max ns of
        NegInfinity \<Rightarrow> n
      | Infinity \<Rightarrow> Infinity
      | Num b \<Rightarrow> (case n of NegInfinity \<Rightarrow> Num b | Infinity \<Rightarrow> Infinity
                  | Num a \<Rightarrow> Num (max a b)))"

fun plus_one :: "number \<Rightarrow> number" where
  "plus_one NegInfinity = NegInfinity"
| "plus_one Infinity = Infinity"
| "plus_one (Num n) = to_double (n + 1)"

text \<open>
  The text of a number in a template literal (\<^verbatim>\<open>Number::toString\<close>). For a double \<open>m\<close>
  with \<open>d\<close> decimal digits: the fewest digits \<open>k\<close> such that a number \<open>t\<close> of \<open>k\<close> digits,
  followed by \<open>d - k\<close> zeros, has \<open>m\<close> as its nearest double; of two such \<open>t\<close> the one
  nearer to \<open>m\<close>, the even one when they are equally near. Up to 21 digits the number is
  written with the zeros, beyond that in exponent notation.
\<close>

definition digits_of :: "nat \<Rightarrow> nat" where
  "digits_of n = length (show_nat n)"

definition candidates :: "nat \<Rightarrow> nat \<Rightarrow> nat list" where
  "candidates m k =
     (let p = 10 ^ (digits_of m - k); s = m div p
      in filter (\<lambda>t. to_double (t * p) = Num m) [s, s + 1])"

definition nearest :: "nat \<Rightarrow> nat \<Rightarrow> nat list \<Rightarrow> nat option" where
  "nearest m p ts =
     (case ts of
        [] \<Rightarrow> None
      | [t] \<Rightarrow> Some t
      | s # t # _ \<Rightarrow>
          (let lo = m - s * p; hi = t * p - m
           in if lo < hi then Some s else if hi < lo then Some t
              else Some (if even s then s else t)))"

fun shortest :: "nat \<Rightarrow> nat list \<Rightarrow> (nat \<times> nat) option" where
  "shortest m [] = None"
| "shortest m (k # ks) =
     (case nearest m (10 ^ (digits_of m - k)) (candidates m k) of
        Some t \<Rightarrow> Some (t, k)
      | None \<Rightarrow> shortest m ks)"

definition show_double :: "nat \<Rightarrow> string" where
  "show_double m =
     (case shortest m [1..<18] of
        None \<Rightarrow> show_nat m
      | Some (t, k) \<Rightarrow>
          (let (ds, n) = (if t = 10 ^ k then (''1'', digits_of m + 1) else (show_nat t, digits_of m))
           in if n \<le> 21 then ds @ replicate (n - length ds) (CHR ''0'')
              else (if length ds = 1 then ds else hd ds # ''.'' @ tl ds) @
                   ''e+'' @ show_nat (n - 1)))"

fun show_number :: "number \<Rightarrow> string" where
  "show_number NegInfinity = ''-Infinity''"
| "show_number Infinity = ''Infinity''"
| "show_number (Num n) = show_double n"

definition digit_val :: "char \<Rightarrow> nat" where
  "digit_val d = (case map_of (zip digits [0, 1, 2, 3, 4, 5, 6, 7, 8, 9]) d of
                    Some v \<Rightarrow> v | None \<Rightarrow> 0)"

definition parseInt :: "string \<Rightarrow> number" where
  "parseInt t = to_double (foldl (\<lambda>a d. 10 * a + digit_val d) 0 (takeWhile is_digit t))"

definition numericIdRegex :: rx where
  "numericIdRegex = seq [lit (''id='' @ dq), Cap 1 (Plus CDigit), lit dq]"

text \<open>\<^verbatim>\<open>parseInt(match.match(/\d+/)?.[0] || '0')\<close>\<close>

definition id_number :: "string \<Rightarrow> number" where
  "id_number m =
     (case js_match False (Plus CDigit) m of
        None \<Rightarrow> parseInt ''0''
      | Some (t, c) \<Rightarrow> parseInt (if t = [] then ''0'' else t))"

definition nl :: string where
  "nl = [CHR 0x0A]"

definition newComponent :: "number \<Rightarrow> string \<Rightarrow> string" where
  "newComponent newId componentName =
     nl @ ''        <mxCell id='' @ dq @ show_number newId @ dq @
     '' value='' @ dq @ toUpperCase componentName @ dq @
     '' style='' @ dq @
     ''rounded=1;whiteSpace=wrap;html=1;fillColor=#dae8fc;strokeColor=#6c8ebf;'' @ dq @
     '' vertex='' @ dq @ ''1'' @ dq @ '' parent='' @ dq @ ''1'' @ dq @ ''>'' @
     nl @ ''          <mxGeometry x='' @ dq @ ''400'' @ dq @ '' y='' @ dq @ ''200'' @ dq @
     '' width='' @ dq @ ''120'' @ dq @ '' height='' @ dq @ ''60'' @ dq @
     '' as='' @ dq @ ''geometry'' @ dq @ '' />'' @
     nl @ ''        </mxCell>''"

text \<open>
  \<^verbatim>\<open>addComponent\<close>. \<open>maxArgs\<close> is the number of arguments that the engine accepts in a call:
  with more numeric identifiers than that, \<^verbatim>\<open>Math.max(...)\<close> throws a \<^verbatim>\<open>RangeError\<close>, which
  the \<^verbatim>\<open>catch\<close> turns into a failure with the document unchanged.
\<close>

definition addComponent :: "nat \<Rightarrow> string \<Rightarrow> string \<Rightarrow> bool \<times> string" where
  "addComponent maxArgs xml componentName =
     (let cellMatches = match_all False numericIdRegex xml in
      if maxArgs < length cellMatches then (False, xml)
      else
        (let maxId = math_max (map id_number cellMatches);
             newId = plus_one maxId;
             modifiedXml = replace_first xml ''</mxGraphModel>''
                             (newComponent newId componentName @ nl @ ''  </mxGraphModel>'')
         in (True, modifiedXml)))"

definition sizeRegex :: "string \<Rightarrow> rx" where
  "sizeRegex component =
     seq [Cap 1 (seq [lit ''<mxCell'', Many (CNot ''>''), lit (''value='' @ dq),
                      Many (CNot dq), lit component, Many (CNot dq), lit dq,
                      Many (CNot ''>''), lit ''>'', Lazy CAny, lit ''<mxGeometry'',
                      Many (CNot ''>''), lit (''width='' @ dq)]),
          Many (CNot dq),
          Cap 2 (seq [lit dq, Many (CNot ''>''), lit (''height='' @ dq)]),
          Many (CNot dq),
          Cap 3 (seq [lit dq, Lazy CAny, lit ''</mxCell>''])]"

definition colorRegex :: "string \<Rightarrow> rx" where
  "colorRegex component =
     seq [Cap 1 (seq [lit ''<mxCell'', Many (CNot ''>''), lit (''value='' @ dq),
                      Many (CNot dq), lit component, Many (CNot dq), lit dq,
                      Many (CNot ''>''), lit (''style='' @ dq), Many (CNot dq),
                      lit ''fillColor='']),
          Many (CNot '';''),
          Cap 2 (seq [lit '';'', Many (CNot dq), lit dq, Many (CNot ''>''), lit ''>'',
                      Lazy CAny, lit ''</mxCell>''])]"

text \<open>
  \<^verbatim>\<open>colorMap[value.toLowerCase()]\<close>: \<^verbatim>\<open>colorMap\<close> is an object literal, so the lookup finds
  its eight own properties and the properties it inherits from \<^verbatim>\<open>Object.prototype\<close>. Of
  those, the names that a lower-cased \<^verbatim>\<open>\w+\<close> can spell are \<^verbatim>\<open>constructor\<close> (the function
  \<^verbatim>\<open>Object\<close>) and \<^verbatim>\<open>__proto__\<close> (the prototype object); both are truthy, and the template
  literal turns them into the texts below.
\<close>

definition colorMap :: "(string \<times> string) list" where
  "colorMap =
     [(''red'', ''#ff0000''), (''blue'', ''#0000ff''), (''green'', ''#00ff00''),
      (''yellow'', ''#ffff00''), (''orange'', ''#ffa500''), (''purple'', ''#800080''),
      (''pink'', ''#ffc0cb''), (''gray'', ''#808080'')]"

definition inherited :: "(string \<times> string) list" where
  "inherited =
     [(''constructor'', ''function Object() { [native code] }''),
      (''__proto__'', ''[object Object]'')]"

definition colorCode_of :: "string \<Rightarrow> string" where
  "colorCode_of v =
     (case map_of (colorMap @ inherited) (toLowerCase v) of Some code \<Rightarrow> code | None \<Rightarrow> v)"

definition modifyComponentProperty ::
  "string \<Rightarrow> string \<Rightarrow> string \<Rightarrow> string \<Rightarrow> bool \<times> string \<times> string" where
  "modifyComponentProperty xml component v userInput =
     (let lowerInput = toLowerCase userInput in
      if includes_str lowerInput ''size'' \<or> includes_str lowerInput ''width'' \<or>
         includes_str lowerInput ''height''
      then (True,
            replace_all True (sizeRegex component)
              [TGrp 1, TLit v, TGrp 2, TLit v, TGrp 3] xml,
            ''Changed '' @ toUpperCase component @ '' size to '' @ v @ ''x'' @ v)
      else if includes_str lowerInput ''color'' \<or> includes_str lowerInput ''colour''
      then (let colorCode = colorCode_of v in
            (True,
             replace_all True (colorRegex component) [TGrp 1, TLit colorCode, TGrp 2] xml,
             ''Changed '' @ toUpperCase component @ '' color to '' @ v))
      else (False, xml, ''Property modification failed''))"

text \<open>\<^verbatim>\<open>userInput.toLowerCase().split(/\s+/)\<close>; \<open>sp\<close> says that the last character was white space.\<close>

fun split_ws :: "bool \<Rightarrow> string \<Rightarrow> string \<Rightarrow> string list" where
  "split_ws sp cur [] = [cur]"
| "split_ws sp cur (x # xs) =
     (if is_space x then
        (if sp then split_ws True cur xs else cur # split_ws True [] xs)
      else split_ws False (cur @ [x]) xs)"

definition stop_words :: "string list" where
  "stop_words = [''the'', ''and'', ''or'', ''to'', ''from'', ''with'', ''by'', ''as'', ''into'',
                 ''remove'', ''add'', ''change'', ''make'']"

text \<open>The loop body of \<^verbatim>\<open>handleContextualChanges\<close>; the state is \<open>(modifiedXml, changes)\<close>.\<close>

definition contextual_step ::
  "string \<Rightarrow> string \<Rightarrow> string \<Rightarrow> string \<times> string list \<Rightarrow> string \<times> string list" where
  "contextual_step xml userInput component st =
     (if includes_str (toLowerCase xml) component then
        (let st1 =
           (if includes_str (toLowerCase userInput) ''bigger'' \<or>
               includes_str (toLowerCase userInput) ''larger''
            then (case modifyComponentProperty (fst st) component ''150'' ''make bigger'' of
                    (success, xml', message) \<Rightarrow>
                      if success then (xml', snd st @ [''Made '' @ toUpperCase component @ '' larger''])
                      else st)
            else st)
         in
           (if includes_str (toLowerCase userInput) ''smaller''
            then (case modifyComponentProperty (fst st1) component ''80'' ''make smaller'' of
                    (success, xml', message) \<Rightarrow>
                      if success then (xml', snd st1 @ [''Made '' @ toUpperCase component @ '' smaller''])
                      else st1)
            else st1))
      else st)"

definition handleContextualChanges :: "string \<Rightarrow> string \<Rightarrow> bool \<times> string \<times> string list" where
  "handleContextualChanges xml userInput =
     (let ws = split_ws False [] (toLowerCase userInput);
          potentialComponents = filter (\<lambda>w. length w > 2 \<and> w \<notin> set stop_words) ws;
          (modifiedXml, changes) =
             foldl (\<lambda>st component. contextual_step xml userInput component st)
               (xml, []) potentialComponents
      in (changes \<noteq> [], modifiedXml, changes))"

section \<open>The instruction patterns and the mutator\<close>

definition sp1 :: rx where
  "sp1 = Plus CSpace"

definition word1 :: rx where
  "word1 = Plus CWord"

definition the_opt :: rx where
  "the_opt = Opt (seq [lit ''the'', sp1])"

definition a_an_opt :: rx where
  "a_an_opt = Opt (Alt (seq [lit ''a'', sp1]) (seq [lit ''an'', sp1]))"

definition removePatterns :: "rx list" where
  "removePatterns =
     [seq [lit ''remove'', sp1, the_opt, Cap 1 word1,
           Opt (Alt (seq [sp1, lit ''block'']) (seq [sp1, lit ''component'']))],
      seq [lit ''delete'', sp1, the_opt, Cap 1 word1,
           Opt (Alt (seq [sp1, lit ''block'']) (seq [sp1, lit ''component'']))],
      seq [lit ''take'', sp1, lit ''out'', sp1, the_opt, Cap 1 word1],
      seq [lit ''eliminate'', sp1, the_opt, Cap 1 word1]]"

definition changePatterns :: "rx list" where
  "changePatterns =
     [seq [alts [''change'', ''rename'', ''replace'', ''convert'', ''switch'', ''update'',
                 ''make'', ''turn''],
           sp1, the_opt, Cap 1 word1,
           seq [sp1, alts [''to'', ''as'', ''into'', ''with'', ''by'']],
           sp1, a_an_opt, Cap 2 word1],
      seq [Cap 1 word1, sp1,
           Alt (lit ''to'') (Alt (lit ''as'') (Alt (lit ''into'')
             (Alt (Cls (CUni 0x2192)) (lit ''->'')))),
           sp1, Cap 2 word1],
      seq [lit ''replace'', sp1, Cap 1 word1, sp1, lit ''with'', sp1, Cap 2 word1]]"

definition connectionRemovePatterns :: "rx list" where
  "connectionRemovePatterns =
     [seq [lit ''remove'', sp1, the_opt, alts [''arrow'', ''connection'', ''line'', ''wire''],
           Opt (seq [sp1, lit ''between'', sp1, Cap 1 word1, sp1, lit ''and'', sp1,
                     Cap 2 word1])],
      seq [lit ''delete'', sp1, the_opt, alts [''arrow'', ''connection'', ''line'', ''wire''],
           Opt (seq [sp1, lit ''between'', sp1, Cap 1 word1, sp1, lit ''and'', sp1,
                     Cap 2 word1])],
      seq [lit ''disconnect'', sp1, Cap 1 word1,
           Opt (seq [sp1, alts [''from'', ''and''], sp1, Cap 2 word1])]]"

definition addPatterns :: "rx list" where
  "addPatterns =
     [seq [lit ''add'', sp1, a_an_opt, Cap 1 word1,
           Opt (seq [sp1, alts [''component'', ''block'', ''unit'']])],
      seq [lit ''insert'', sp1, a_an_opt, Cap 1 word1],
      seq [lit ''create'', sp1, a_an_opt, Cap 1 word1]]"

definition propertyPatterns :: "rx list" where
  "propertyPatterns =
     [seq [alts [''make'', ''set'', ''change''], sp1, Cap 1 word1, sp1,
           alts [''size'', ''width'', ''height''], sp1, Opt (seq [lit ''to'', sp1]),
           Cap 2 (Plus CDigit)],
      seq [lit ''resize'', sp1, Cap 1 word1, sp1, lit ''to'', sp1, Cap 2 (Plus CDigit)],
      seq [alts [''make'', ''set''], sp1, Cap 1 word1, sp1, alts [''color'', ''colour''], sp1,
           Opt (seq [lit ''to'', sp1]), Cap 2 word1]]"

text \<open>
  The five \<^verbatim>\<open>for (const pattern of ...)\<close> loops of \<^verbatim>\<open>makeActualXmlChanges\<close>. Each returns
  \<open>Some (modifiedXml, changes)\<close> where the source returns from inside the loop, and \<open>None\<close>
  where the loop ends and control goes on to the next category. Up to that return
  \<^verbatim>\<open>modifiedXml\<close> is \<^verbatim>\<open>xml\<close> and \<^verbatim>\<open>changes\<close> is empty.
\<close>

type_synonym outcome = "string \<times> string list"

fun remove_loop :: "synrx \<Rightarrow> rx list \<Rightarrow> string \<Rightarrow> string \<Rightarrow> outcome option" where
  "remove_loop syn [] userInput xml = None"
| "remove_loop syn (pattern # rest) userInput xml =
     (case js_match True pattern userInput of
        None \<Rightarrow> remove_loop syn rest userInput xml
      | Some (m, c) \<Rightarrow>
          (let componentToRemove = grp_text c 1;
               (success, xml') = removeComponent syn xml componentToRemove
           in if success
              then Some (xml', [''Removed '' @ toUpperCase componentToRemove @
                                '' component and its connections''])
              else remove_loop syn rest userInput xml))"

fun change_loop :: "rx list \<Rightarrow> string \<Rightarrow> string \<Rightarrow> outcome option" where
  "change_loop [] userInput xml = None"
| "change_loop (pattern # rest) userInput xml =
     (case js_match True pattern userInput of
        None \<Rightarrow> change_loop rest userInput xml
      | Some (m, c) \<Rightarrow>
          (let fromComponent = grp_text c 1; toComponent = grp_text c 2;
               (success, xml', count) = replaceComponent xml fromComponent toComponent
           in if success
              then Some (xml', [''Changed '' @ show_nat count @ '' instance(s) of '' @ dq @
                                toUpperCase fromComponent @ dq @ '' to '' @ dq @
                                toUpperCase toComponent @ dq])
              else change_loop rest userInput xml))"

fun connection_loop :: "rx list \<Rightarrow> string \<Rightarrow> string \<Rightarrow> outcome option" where
  "connection_loop [] userInput xml = None"
| "connection_loop (pattern # rest) userInput xml =
     (case js_match True pattern userInput of
        None \<Rightarrow> connection_loop rest userInput xml
      | Some (m, c) \<Rightarrow>
          (let (success, xml', message) = removeConnections xml (grp c 1) (grp c 2)
           in if success then Some (xml', [message])
              else connection_loop rest userInput xml))"

fun add_loop :: "nat \<Rightarrow> rx list \<Rightarrow> string \<Rightarrow> string \<Rightarrow> outcome option" where
  "add_loop maxArgs [] userInput xml = None"
| "add_loop maxArgs (pattern # rest) userInput xml =
     (case js_match True pattern userInput of
        None \<Rightarrow> add_loop maxArgs rest userInput xml
      | Some (m, c) \<Rightarrow>
          (let componentToAdd = grp_text c 1;
               (success, xml') = addComponent maxArgs xml componentToAdd
           in if success
              then Some (xml', [''Added new '' @ toUpperCase componentToAdd @
                                '' component to the architecture''])
              else add_loop maxArgs rest userInput xml))"

fun property_loop :: "rx list \<Rightarrow> string \<Rightarrow> string \<Rightarrow> outcome option" where
  "property_loop [] userInput xml = None"
| "property_loop (pattern # rest) userInput xml =
     (case js_match True pattern userInput of
        None \<Rightarrow> property_loop rest userInput xml
      | Some (m, c) \<Rightarrow>
          (let component = grp_text c 1; v = grp_text c 2;
               (success, xml', message) = modifyComponentProperty xml component v userInput
           in if success then Some (xml', [message])
              else property_loop rest userInput xml))"

definition contextual :: "string \<Rightarrow> string \<Rightarrow> outcome option" where
  "contextual userInput xml =
     (case handleContextualChanges xml userInput of
        (success, xml', changes) \<Rightarrow> if success then Some (xml', changes) else None)"

definition makeActualXmlChanges :: "synrx \<Rightarrow> nat \<Rightarrow> string \<Rightarrow> string \<Rightarrow> outcome" where
  "makeActualXmlChanges syn maxArgs userInput xml =
     (case remove_loop syn removePatterns userInput xml of
        Some out \<Rightarrow> out
      | None \<Rightarrow>
     (case change_loop changePatterns userInput xml of
        Some out \<Rightarrow> out
      | None \<Rightarrow>
     (case connection_loop connectionRemovePatterns userInput xml of
        Some out \<Rightarrow> out
      | None \<Rightarrow>
     (case add_loop maxArgs addPatterns userInput xml of
        Some out \<Rightarrow> out
      | None \<Rightarrow>
     (case property_loop propertyPatterns userInput xml of
        Some out \<Rightarrow> out
      | None \<Rightarrow>
     (case contextual userInput xml of
        Some out \<Rightarrow> out
      | None \<Rightarrow> (xml, [])))))))"

text \<open>A small document: one node labelled GPU, with the given fill colour.\<close>

definition gpu_cell :: "string \<Rightarrow> string" where
  "gpu_cell fill =
     ''<mxCell id='' @ dq @ ''2'' @ dq @ '' value='' @ dq @ ''GPU'' @ dq @
     '' style='' @ dq @ ''fillColor='' @ fill @ '';'' @ dq @ ''></mxCell>''"

definition gpu_doc :: string where
  "gpu_doc = ''<mxGraphModel>'' @ gpu_cell ''#dae8fc'' @ ''</mxGraphModel>''"

section \<open>Notions used to state the properties\<close>

text \<open>
  What a literal text consumes: \<open>strip_lit ic w p s\<close> is the state behind the literal \<open>w\<close>
  when \<open>s\<close> starts with it (up to letter case under \<open>ic\<close>).
\<close>

fun strip_lit :: "bool \<Rightarrow> string \<Rightarrow> char option \<Rightarrow> string \<Rightarrow> (char option \<times> string) option" where
  "strip_lit ic [] p s = Some (p, s)"
| "strip_lit ic (a # as) p [] = None"
| "strip_lit ic (a # as) p (x # xs) =
     (if cmatch ic (CChar a) x then strip_lit ic as (Some x) xs else None)"

text \<open>
  Whole words. A text falls into tokens: the maximal runs of word characters and the
  maximal runs of other characters. A whole-word occurrence of \<open>w\<close>, letter case ignored,
  is a token that equals \<open>w\<close> up to case.
\<close>

fun tokens :: "string \<Rightarrow> string list" where
  "tokens [] = []"
| "tokens (x # xs) =
     (case tokens xs of
        [] \<Rightarrow> [[x]]
      | [] # ts \<Rightarrow> [x] # ts
      | (y # t) # ts \<Rightarrow>
          if is_word x = is_word y then (x # y # t) # ts else [x] # (y # t) # ts)"

definition same_word :: "string \<Rightarrow> string \<Rightarrow> bool" where
  "same_word a b = (toUpperCase a = toUpperCase b)"

definition whole_words :: "string \<Rightarrow> string \<Rightarrow> string list" where
  "whole_words w doc = filter (same_word w) (tokens doc)"

definition replace_words :: "string \<Rightarrow> string \<Rightarrow> string \<Rightarrow> string" where
  "replace_words w t doc =
     concat (map (\<lambda>tok. if same_word w tok then toUpperCase t else tok) (tokens doc))"

text \<open>A word as \<^verbatim>\<open>(\w+)\<close> captures it: word characters, at least one.\<close>

definition is_name :: "string \<Rightarrow> bool" where
  "is_name w = (w \<noteq> [] \<and> list_all is_word w)"

text \<open>
  The states in which a pattern can end, whatever the order in which the matcher tries
  them: \<open>runs ok st\<close> are the states that \<^verbatim>\<open>*\<close> and \<^verbatim>\<open>*?\<close> over a class can reach from \<open>st\<close>.
\<close>

fun runs :: "(char \<Rightarrow> bool) \<Rightarrow> mstate \<Rightarrow> mstate set" where
  "runs ok (p, [], c) = {(p, [], c)}"
| "runs ok (p, x # xs, c) =
     insert (p, x # xs, c) (if ok x then runs ok (Some x, xs, c) else {})"

fun ends :: "bool \<Rightarrow> rx \<Rightarrow> mstate \<Rightarrow> mstate set" where
  "ends ic Eps st = {st}"
| "ends ic (Cls cs) (p, s, c) =
     (case s of [] \<Rightarrow> {} | x # xs \<Rightarrow> if cmatch ic cs x then {(Some x, xs, c)} else {})"
| "ends ic (Seq a b) st = (\<Union>st' \<in> ends ic a st. ends ic b st')"
| "ends ic (Alt a b) st = ends ic a st \<union> ends ic b st"
| "ends ic (Many cs) st = runs (cmatch ic cs) st"
| "ends ic (Lazy cs) st = runs (cmatch ic cs) st"
| "ends ic (Cap n r) (p, s, c) =
     (\<lambda>(p', s', c'). (p', s', (n, take (length s - length s') s) # c')) ` ends ic r (p, s, c)"
| "ends ic Bnd (p, s, c) = (if word_before p \<noteq> word_here s then {(p, s, c)} else {})"

text \<open>
  A self-closing edge element that also carries a label, and a node element with opening
  and closing tag.
\<close>

definition stub_doc :: string where
  "stub_doc = ''<mxCell id='' @ dq @ ''3'' @ dq @ '' value='' @ dq @ ''GPU'' @ dq @
              '' edge='' @ dq @ ''1'' @ dq @ '' source='' @ dq @ ''3'' @ dq @ ''/>''"

definition plain_cell :: string where
  "plain_cell = ''<mxCell id='' @ dq @ ''4'' @ dq @ '' value='' @ dq @ ''A'' @ dq @ ''></mxCell>''"

text \<open>\<open>starts_ci w s\<close>: the text \<open>s\<close> starts with \<open>w\<close>, letter case ignored.\<close>

definition starts_ci :: "string \<Rightarrow> string \<Rightarrow> bool" where
  "starts_ci w s = (length w \<le> length s \<and> map upc (take (length w) s) = map upc w)"

text \<open>
  \<open>overlap w s\<close>: \<open>s\<close> starts with \<open>w\<close>, or \<open>s\<close> is a beginning of \<open>w\<close> (letter case
  ignored); \<open>safe w s\<close>: nowhere in \<open>s\<close> does an occurrence of \<open>w\<close> start, not even one
  that would be completed by text put behind \<open>s\<close>.
\<close>

definition overlap :: "string \<Rightarrow> string \<Rightarrow> bool" where
  "overlap w s = (map upc (take (length w) s) = map upc (take (length s) w))"

fun safe :: "string \<Rightarrow> string \<Rightarrow> bool" where
  "safe w [] = True"
| "safe w (x # xs) = (\<not> overlap w (x # xs) \<and> safe w xs)"

text \<open>
  Documents as draw.io writes them: a sequence of cell elements with opening and closing
  tag (\<open>Cell\<close>, with the text of the attributes and the text between the tags), cell tags
  without content such as \<^verbatim>\<open><mxCell id="0"/>\<close> (\<open>Stub\<close>), and other markup between them
  (\<open>Gap\<close>).
\<close>

datatype item = Gap string | Stub string | Cell string string

fun render_item :: "item \<Rightarrow> string" where
  "render_item (Gap g) = g"
| "render_item (Stub h) = ''<mxCell'' @ h @ ''>''"
| "render_item (Cell h b) = ''<mxCell'' @ h @ ''>'' @ b @ ''</mxCell>''"

definition render :: "item list \<Rightarrow> string" where
  "render its = concat (map render_item its)"

definition no_angle :: "string \<Rightarrow> bool" where
  "no_angle h = (CHR ''<'' \<notin> set h \<and> CHR ''>'' \<notin> set h)"

definition edge_mark :: "string \<Rightarrow> bool" where
  "edge_mark h = includes_str (toUpperCase h) (toUpperCase (''edge='' @ dq @ ''1'' @ dq))"

fun is_edge :: "item \<Rightarrow> bool" where
  "is_edge (Cell h b) = edge_mark h"
| "is_edge (Stub h) = False"
| "is_edge (Gap g) = False"

text \<open>
  Well-formed items: attribute text has no angle bracket; no cell tag starts inside other
  markup or inside the content of a cell; the content of a cell holds no closing cell
  tag; a cell tag without content is no edge.
\<close>

fun wf_item :: "item \<Rightarrow> bool" where
  "wf_item (Gap g) = safe ''<mxCell'' g"
| "wf_item (Stub h) = (no_angle h \<and> \<not> edge_mark h)"
| "wf_item (Cell h b) = (no_angle h \<and> safe ''<mxCell'' b \<and> safe ''</mxCell>'' b)"

text \<open>
  The texts of a pattern, for patterns without group and without \<^verbatim>\<open>\b\<close> (\<open>simple\<close>), under
  the flag \<^verbatim>\<open>i\<close>: \<open>fits r s s'\<close> says that \<open>r\<close> can take a beginning of \<open>s\<close> and leave \<open>s'\<close>.
\<close>

fun simple :: "rx \<Rightarrow> bool" where
  "simple Eps = True"
| "simple (Cls cs) = True"
| "simple (Seq a b) = (simple a \<and> simple b)"
| "simple (Alt a b) = (simple a \<and> simple b)"
| "simple (Many cs) = True"
| "simple (Lazy cs) = True"
| "simple (Cap n r) = False"
| "simple Bnd = False"

fun fits :: "rx \<Rightarrow> string \<Rightarrow> string \<Rightarrow> bool" where
  "fits Eps s s' = (s = s')"
| "fits (Cls cs) s s' = (\<exists>x. s = x # s' \<and> cmatch True cs x)"
| "fits (Seq a b) s s' = (\<exists>t. fits a s t \<and> fits b t s')"
| "fits (Alt a b) s s' = (fits a s s' \<or> fits b s s')"
| "fits (Many cs) s s' = (\<exists>u. s = u @ s' \<and> list_all (cmatch True cs) u)"
| "fits (Lazy cs) s s' = (\<exists>u. s = u @ s' \<and> list_all (cmatch True cs) u)"
| "fits (Cap n r) s s' = fits r s s'"
| "fits Bnd s s' = (s = s')"

text \<open>The pieces into which the scan for edge elements cuts one item.\<close>

definition edge_pieces :: "item \<Rightarrow> piece list" where
  "edge_pieces it = (if is_edge it then [Hit (render_item it) []] else map Txt (render_item it))"

text \<open>A small well-formed document, and a text in which an edge element is cut in two by another.\<close>

definition sample_items :: "item list" where
  "sample_items =
     [Gap ''<mxGraphModel><root>'',
      Stub ('' id='' @ dq @ ''0'' @ dq @ ''/''),
      Cell ('' id='' @ dq @ ''2'' @ dq @ '' value='' @ dq @ ''GPU'' @ dq) ''<mxGeometry/>'',
      Cell ('' id='' @ dq @ ''3'' @ dq @ '' value='' @ dq @ ''CPU'' @ dq) [],
      Cell ('' id='' @ dq @ ''4'' @ dq @ '' edge='' @ dq @ ''1'' @ dq @ '' source='' @ dq @ ''2'' @ dq @
            '' target='' @ dq @ ''3'' @ dq) ''<mxGeometry/>'',
      Gap ''</root></mxGraphModel>'']"

definition edge_cell :: string where
  "edge_cell = ''<mxCell edge='' @ dq @ ''1'' @ dq @ ''></mxCell>''"

definition spliced_doc :: string where
  "spliced_doc = ''<mxC'' @ edge_cell @ ''ell edge='' @ dq @ ''1'' @ dq @ ''></mxCell>''"

text \<open>
  The three deletion patterns have one shape: the opening of a cell tag, a requirement
  \<open>H\<close> on the attribute text, the end of the tag, and the shortest text up to a closing
  cell tag. \<open>tagged H W P\<close> says what \<open>H\<close> requires: on attribute texts of the kind \<open>W\<close> it
  is the property \<open>P\<close>.
\<close>

definition tag_regex :: "rx list \<Rightarrow> rx" where
  "tag_regex H = seq ((lit ''<mxCell'' # H) @ [Lazy CAny, lit ''</mxCell>''])"

definition tagged :: "rx list \<Rightarrow> (string \<Rightarrow> bool) \<Rightarrow> (string \<Rightarrow> bool) \<Rightarrow> bool" where
  "tagged H W P \<longleftrightarrow>
     simple (seq H) \<and> (\<forall>h. W h \<longrightarrow> no_angle h) \<and>
     (\<forall>h r s'. W h \<longrightarrow>
        (fits (seq (lit ''<mxCell'' # H)) (''<mxCell'' @ h @ ''>'' @ r) s' \<longleftrightarrow> s' = r \<and> P h))"

fun gwf :: "(string \<Rightarrow> bool) \<Rightarrow> (string \<Rightarrow> bool) \<Rightarrow> item \<Rightarrow> bool" where
  "gwf W P (Gap g) = safe ''<mxCell'' g"
| "gwf W P (Stub h) = (W h \<and> \<not> P h)"
| "gwf W P (Cell h b) = (W h \<and> safe ''<mxCell'' b \<and> safe ''</mxCell>'' b)"

fun hit :: "(string \<Rightarrow> bool) \<Rightarrow> item \<Rightarrow> bool" where
  "hit P (Cell h b) = P h"
| "hit P (Stub h) = False"
| "hit P (Gap g) = False"

definition pieces :: "(string \<Rightarrow> bool) \<Rightarrow> item \<Rightarrow> piece list" where
  "pieces P it = (if hit P it then [Hit (render_item it) []] else map Txt (render_item it))"

text \<open>
  An attribute text refers to an identifier when it has \<^verbatim>\<open>source="id"\<close> or \<^verbatim>\<open>target="id"\<close>,
  letter case ignored.
\<close>

definition refs :: "string \<Rightarrow> string \<Rightarrow> bool" where
  "refs componentId h =
     (includes_str (toUpperCase h) (toUpperCase (''source='' @ dq @ componentId @ dq)) \<or>
      includes_str (toUpperCase h) (toUpperCase (''target='' @ dq @ componentId @ dq)))"

text \<open>
  The attribute text of a cell element with a label: the identifier \<open>i\<close>, the attributes
  \<open>x\<close> between identifier and label, the label \<open>l\<close> (attribute \<^verbatim>\<open>value\<close>), and the other
  attributes \<open>a\<close>. \<open>head_ok\<close>: identifier and label have no quote, nothing has an angle
  bracket, and the text \<^verbatim>\<open>value="\<close> occurs only where the label starts.
\<close>

definition vlit :: string where
  "vlit = ''value='' @ dq"

definition idlit :: string where
  "idlit = ''id='' @ dq"

definition cell_head :: "string \<Rightarrow> string \<Rightarrow> string \<Rightarrow> string \<Rightarrow> string" where
  "cell_head i x l a = '' id='' @ dq @ i @ dq @ x @ '' value='' @ dq @ l @ dq @ a"

definition head_ok :: "string \<Rightarrow> string \<Rightarrow> string \<Rightarrow> string \<Rightarrow> bool" where
  "head_ok i x l a \<longleftrightarrow>
     CHR 0x22 \<notin> set i \<and> CHR 0x22 \<notin> set l \<and>
     no_angle i \<and> no_angle x \<and> no_angle l \<and> no_angle a \<and>
     safe vlit ('' id='' @ dq @ i @ dq @ x @ '' '') \<and> safe vlit (tl vlit @ l @ dq @ a @ ''>'')"

text \<open>
  \<open>has_label n h\<close>: the attribute text \<open>h\<close> has \<^verbatim>\<open>value="\<close>, then a text without quote that
  holds \<open>n\<close>, then a quote (letter case ignored). \<open>comp_head\<close>: an attribute text without
  \<^verbatim>\<open>value="\<close>, or one of the form \<open>cell_head\<close>.
\<close>

definition has_label :: "string \<Rightarrow> string \<Rightarrow> bool" where
  "has_label n h \<longleftrightarrow>
     (\<exists>a v l1 m l2 b. h = a @ v @ l1 @ m @ l2 @ dq @ b \<and> map upc v = map upc vlit \<and>
        CHR 0x22 \<notin> set l1 \<and> CHR 0x22 \<notin> set l2 \<and> map upc m = map upc n)"

definition comp_head :: "string \<Rightarrow> bool" where
  "comp_head h \<longleftrightarrow>
     no_angle h \<and>
     (\<not> includes_str (toUpperCase h) (toUpperCase vlit) \<or>
      (\<exists>i x l a. h = cell_head i x l a \<and> head_ok i x l a))"

text \<open>
  Proof notions: the texts that the label requirement of the component pattern takes,
  and \<open>clear t u tail\<close>: no occurrence of \<open>t\<close> starts inside \<open>u\<close> when \<open>tail\<close> follows.
\<close>

definition Ev :: "string \<Rightarrow> string \<Rightarrow> bool" where
  "Ev n e \<longleftrightarrow> (\<exists>v l1 m l2. e = v @ l1 @ m @ l2 @ dq \<and> map upc v = map upc vlit \<and>
      CHR 0x22 \<notin> set l1 \<and> CHR 0x22 \<notin> set l2 \<and> map upc m = map upc n)"

definition clear :: "string \<Rightarrow> string \<Rightarrow> string \<Rightarrow> bool" where
  "clear t u tail \<longleftrightarrow> (\<forall>a b. u = a @ b \<longrightarrow> b \<noteq> [] \<longrightarrow> \<not> starts_with t (b @ tail))"

text \<open>
  Where \<^verbatim>\<open>id="\<close> may stand outside the identifier of a labelled cell. \<open>closed_id s\<close>: the
  text \<open>s\<close> starts with \<^verbatim>\<open>id="\<close> (letter case ignored), the quote is closed, a \<^verbatim>\<open>>\<close> follows
  behind the closing quote, and no \<^verbatim>\<open>value="\<close> stands between the two: an attribute of a
  tag that has no label behind it. \<open>id_quiet s\<close>: wherever in \<open>s\<close> a text \<^verbatim>\<open>id="\<close> starts, or
  could start when \<open>s\<close> is continued, it is such an attribute.
\<close>

definition closed_id :: "string \<Rightarrow> bool" where
  "closed_id s \<longleftrightarrow>
     starts_ci idlit s \<and>
     (let q = dropWhile (\<lambda>c. c \<noteq> CHR 0x22) (drop (length idlit) s) in
      q \<noteq> [] \<and>
      (let v = tl q; u = takeWhile (\<lambda>c. c \<noteq> CHR ''>'') v in
       length u < length v \<and> \<not> includes_str (toUpperCase u) (toUpperCase vlit)))"

fun id_quiet :: "string \<Rightarrow> bool" where
  "id_quiet [] = True"
| "id_quiet (x # xs) = ((closed_id (x # xs) \<or> \<not> overlap idlit (x # xs)) \<and> id_quiet xs)"

text \<open>
  The documents for which removal is described, as sequences of nodes: markup between the
  cell elements; cell tags without content, with attribute text \<open>h\<close> (as in
  \<^verbatim>\<open><mxCell id="0"/>\<close>); cell elements without label, with attribute text \<open>h\<close> and content
  \<open>b\<close>; and cell elements with identifier \<open>i\<close>, attributes \<open>x\<close>, label \<open>l\<close>, attributes \<open>a\<close>
  and content \<open>b\<close>, written \<^verbatim>\<open><mxCell id="i"x value="l"a>b</mxCell>\<close>.
\<close>

datatype node =
    Markup string
  | Tag string
  | Plain string string
  | Elem string string string string string

fun to_item :: "node \<Rightarrow> item" where
  "to_item (Markup g) = Gap g"
| "to_item (Tag h) = Stub h"
| "to_item (Plain h b) = Cell h b"
| "to_item (Elem i x l a b) = Cell (cell_head i x l a) b"

definition doc_text :: "node list \<Rightarrow> string" where
  "doc_text ns = render (map to_item ns)"

text \<open>
  \<open>labelled n y\<close>: the label of the cell element \<open>y\<close> holds \<open>n\<close>, letter case ignored;
  \<open>refers j y\<close>: the attribute text of the cell element \<open>y\<close> holds \<^verbatim>\<open>source="j"\<close> or
  \<^verbatim>\<open>target="j"\<close>, letter case ignored.
\<close>

fun labelled :: "string \<Rightarrow> node \<Rightarrow> bool" where
  "labelled n (Elem i x l a b) = includes_str (toUpperCase l) (toUpperCase n)"
| "labelled n (Plain h b) = False"
| "labelled n (Tag h) = False"
| "labelled n (Markup g) = False"

fun refers :: "string \<Rightarrow> node \<Rightarrow> bool" where
  "refers j (Elem i x l a b) = refs j (cell_head i x l a)"
| "refers j (Plain h b) = refs j h"
| "refers j (Tag h) = False"
| "refers j (Markup g) = False"

text \<open>
  Well-formed nodes. No cell tag starts inside markup or inside the content of a cell
  element, and no closing cell tag stands inside the content. Attribute text has no angle
  bracket. A cell tag without content has no label, source or target, and a cell element
  without label has no \<^verbatim>\<open>value="\<close>. The text \<^verbatim>\<open>id="\<close> stands only at the identifier of a
  labelled cell element and where \<open>id_quiet\<close> admits it.
\<close>

fun wf_node :: "node \<Rightarrow> bool" where
  "wf_node (Markup g) = (safe ''<mxCell'' g \<and> id_quiet g)"
| "wf_node (Tag h) =
     (no_angle h \<and> id_quiet (h @ ''>'') \<and>
      \<not> includes_str (toUpperCase h) (toUpperCase vlit) \<and>
      \<not> includes_str (toUpperCase h) (toUpperCase (''source='' @ dq)) \<and>
      \<not> includes_str (toUpperCase h) (toUpperCase (''target='' @ dq)))"
| "wf_node (Plain h b) =
     (no_angle h \<and> id_quiet (h @ ''>'' @ b) \<and>
      \<not> includes_str (toUpperCase h) (toUpperCase vlit) \<and>
      safe ''<mxCell'' b \<and> safe ''</mxCell>'' b)"
| "wf_node (Elem i x l a b) =
     (head_ok i x l a \<and> safe ''<mxCell'' b \<and> safe ''</mxCell>'' b \<and>
      id_quiet (i @ dq @ x @ '' value='' @ dq @ l @ dq @ a @ ''>'' @ b))"

text \<open>
  Proof notions: the part of the identifier pattern behind the identifier, and
  \<open>dead n u\<close>: the identifier pattern for \<open>n\<close> matches at no position of \<open>u\<close>, whatever
  text follows \<open>u\<close>.
\<close>

definition label_part :: "string \<Rightarrow> rx list" where
  "label_part n = [Many (CNot ''>''), lit vlit, Many (CNot dq), lit n, Many (CNot dq), lit dq]"

definition dead :: "string \<Rightarrow> string \<Rightarrow> bool" where
  "dead n u \<longleftrightarrow>
     (\<forall>a b p rest. u = a @ b \<longrightarrow> b \<noteq> [] \<longrightarrow> exec True (idRegex n) p (b @ rest) = None)"

text \<open>
  A well-formed document with a grid attribute in its header, two nodes and two edges
  between them, one of the edges without label; what Remove leaves of it for the name
  GPU; a document with two labels that differ in letter case only; and a document whose
  node has the label in front of the identifier.
\<close>

definition vertex_attr :: string where
  "vertex_attr = '' vertex='' @ dq @ ''1'' @ dq"

definition sample_nodes :: "node list" where
  "sample_nodes =
     [Markup (''<mxGraphModel grid='' @ dq @ ''1'' @ dq @ ''><root>''),
      Tag ('' id='' @ dq @ ''0'' @ dq @ ''/''),
      Tag ('' id='' @ dq @ ''1'' @ dq @ '' parent='' @ dq @ ''0'' @ dq @ ''/''),
      Elem ''2'' ('' parent='' @ dq @ ''1'' @ dq) ''GPU'' vertex_attr ''<mxGeometry/>'',
      Elem ''3'' [] ''CPU'' vertex_attr ''<mxGeometry/>'',
      Plain ('' id='' @ dq @ ''4'' @ dq @ '' edge='' @ dq @ ''1'' @ dq @
             '' source='' @ dq @ ''2'' @ dq @ '' target='' @ dq @ ''3'' @ dq) ''<mxGeometry/>'',
      Elem ''5'' [] ''link'' ('' edge='' @ dq @ ''1'' @ dq @ '' source='' @ dq @ ''3'' @ dq @
                              '' target='' @ dq @ ''2'' @ dq) [],
      Markup ''</root></mxGraphModel>'']"

definition sample_removed :: "node list" where
  "sample_removed =
     [Markup (''<mxGraphModel grid='' @ dq @ ''1'' @ dq @ ''><root>''),
      Tag ('' id='' @ dq @ ''0'' @ dq @ ''/''),
      Tag ('' id='' @ dq @ ''1'' @ dq @ '' parent='' @ dq @ ''0'' @ dq @ ''/''),
      Elem ''3'' [] ''CPU'' vertex_attr ''<mxGeometry/>'',
      Markup ''</root></mxGraphModel>'']"

definition mixed_nodes :: "node list" where
  "mixed_nodes =
     [Markup ''<mxGraphModel><root>'',
      Elem ''2'' [] ''GPU'' vertex_attr [],
      Elem ''5'' [] ''gpu'' vertex_attr [],
      Elem ''3'' [] ''CPU'' vertex_attr [],
      Markup ''</root></mxGraphModel>'']"

definition mixed_removed :: "node list" where
  "mixed_removed =
     [Markup ''<mxGraphModel><root>'',
      Elem ''3'' [] ''CPU'' vertex_attr [],
      Markup ''</root></mxGraphModel>'']"

definition edge_to_2 :: string where
  "edge_to_2 =
     ''<mxCell id='' @ dq @ ''7'' @ dq @ '' edge='' @ dq @ ''1'' @ dq @ '' source='' @ dq @ ''2'' @ dq @
     '' target='' @ dq @ ''3'' @ dq @ ''></mxCell>''"

definition label_first_doc :: string where
  "label_first_doc =
     ''<mxGraphModel><root><mxCell value='' @ dq @ ''GPU'' @ dq @ '' id='' @ dq @ ''2'' @ dq @
     ''></mxCell>'' @ edge_to_2 @ ''</root></mxGraphModel>''"

text \<open>A document whose only edge element is written as a cell tag without content.\<close>

definition hanging_edge_doc :: string where
  "hanging_edge_doc =
     ''<mxGraphModel><root><mxCell id='' @ dq @ ''9'' @ dq @ '' edge='' @ dq @ ''1'' @ dq @
     ''/></root></mxGraphModel>''"

text \<open>
  One attempt of the mutator, for a pattern of a category: the pattern does not match the
  instruction (\<open>NoMatch\<close>); it matches and the transform of the category reports failure
  (\<open>Failed\<close>); it matches and the transform reports success (\<open>Applied\<close>, with the document
  and the change records of that transform). The sixth category has no pattern: its one
  attempt is the call of \<^verbatim>\<open>handleContextualChanges\<close>.
\<close>

datatype attempt = NoMatch | Failed | Applied outcome

definition remove_attempt :: "synrx \<Rightarrow> string \<Rightarrow> string \<Rightarrow> rx \<Rightarrow> attempt" where
  "remove_attempt syn userInput xml pattern =
     (case js_match True pattern userInput of
        None \<Rightarrow> NoMatch
      | Some (m, c) \<Rightarrow>
          (case removeComponent syn xml (grp_text c 1) of
             (success, xml') \<Rightarrow>
               if success
               then Applied (xml', [''Removed '' @ toUpperCase (grp_text c 1) @
                                    '' component and its connections''])
               else Failed))"

definition change_attempt :: "string \<Rightarrow> string \<Rightarrow> rx \<Rightarrow> attempt" where
  "change_attempt userInput xml pattern =
     (case js_match True pattern userInput of
        None \<Rightarrow> NoMatch
      | Some (m, c) \<Rightarrow>
          (case replaceComponent xml (grp_text c 1) (grp_text c 2) of
             (success, xml', count) \<Rightarrow>
               if success
               then Applied (xml', [''Changed '' @ show_nat count @ '' instance(s) of '' @ dq @
                                    toUpperCase (grp_text c 1) @ dq @ '' to '' @ dq @
                                    toUpperCase (grp_text c 2) @ dq])
               else Failed))"

definition connection_attempt :: "string \<Rightarrow> string \<Rightarrow> rx \<Rightarrow> attempt" where
  "connection_attempt userInput xml pattern =
     (case js_match True pattern userInput of
        None \<Rightarrow> NoMatch
      | Some (m, c) \<Rightarrow>
          (case removeConnections xml (grp c 1) (grp c 2) of
             (success, xml', message) \<Rightarrow> if success then Applied (xml', [message]) else Failed))"

definition add_attempt :: "nat \<Rightarrow> string \<Rightarrow> string \<Rightarrow> rx \<Rightarrow> attempt" where
  "add_attempt maxArgs userInput xml pattern =
     (case js_match True pattern userInput of
        None \<Rightarrow> NoMatch
      | Some (m, c) \<Rightarrow>
          (case addComponent maxArgs xml (grp_text c 1) of
             (success, xml') \<Rightarrow>
               if success
               then Applied (xml', [''Added new '' @ toUpperCase (grp_text c 1) @
                                    '' component to the architecture''])
               else Failed))"

definition property_attempt :: "string \<Rightarrow> string \<Rightarrow> rx \<Rightarrow> attempt" where
  "property_attempt userInput xml pattern =
     (case js_match True pattern userInput of
        None \<Rightarrow> NoMatch
      | Some (m, c) \<Rightarrow>
          (case modifyComponentProperty xml (grp_text c 1) (grp_text c 2) userInput of
             (success, xml', message) \<Rightarrow> if success then Applied (xml', [message]) else Failed))"

definition contextual_attempt :: "string \<Rightarrow> string \<Rightarrow> attempt" where
  "contextual_attempt userInput xml =
     (case handleContextualChanges xml userInput of
        (success, xml', changes) \<Rightarrow> if success then Applied (xml', changes) else Failed)"

text \<open>
  All attempts for an instruction, in the order of the source: the patterns of Remove,
  Replace/Rename, DisconnectEdges, Add and ModifyProperty, each list in its own order,
  then ContextualBulkResize. \<open>first_applied\<close> is the outcome of the first attempt whose
  transform reports success.
\<close>

definition attempts :: "synrx \<Rightarrow> nat \<Rightarrow> string \<Rightarrow> string \<Rightarrow> attempt list" where
  "attempts syn maxArgs userInput xml =
     map (remove_attempt syn userInput xml) removePatterns @
     map (change_attempt userInput xml) changePatterns @
     map (connection_attempt userInput xml) connectionRemovePatterns @
     map (add_attempt maxArgs userInput xml) addPatterns @
     map (property_attempt userInput xml) propertyPatterns @
     [contextual_attempt userInput xml]"

fun first_applied :: "attempt list \<Rightarrow> outcome option" where
  "first_applied [] = None"
| "first_applied (Applied out # rest) = Some out"
| "first_applied (NoMatch # rest) = first_applied rest"
| "first_applied (Failed # rest) = first_applied rest"

fun is_applied :: "attempt \<Rightarrow> bool" where
  "is_applied (Applied out) = True"
| "is_applied NoMatch = False"
| "is_applied Failed = False"

text \<open>Two instructions that more than one category matches.\<close>

definition remove_and_add :: string where
  "remove_and_add = ''remove GPU and add RAM''"

definition set_color :: string where
  "set_color = ''set GPU color to red''"

text \<open>
  \<open>ends_with x t\<close>: the text \<open>x\<close> ends with \<open>t\<close>. \<open>closes m\<close>: the text \<open>m\<close> ends with a
  closing cell tag, in whatever letter case. \<open>id_usable syn n xml\<close>: the identifier that
  Remove finds for the name \<open>n\<close>, if it finds one, has no character of the pattern syntax,
  or the pattern built from it is rejected.
\<close>

definition ends_with :: "string \<Rightarrow> string \<Rightarrow> bool" where
  "ends_with x t = (length t \<le> length x \<and> drop (length x - length t) x = t)"

definition closes :: "string \<Rightarrow> bool" where
  "closes m = ends_with (toUpperCase m) ''</MXCELL>''"

definition id_usable :: "synrx \<Rightarrow> string \<Rightarrow> string \<Rightarrow> bool" where
  "id_usable syn componentName xml =
     (case js_match True (idRegex componentName) xml of
        None \<Rightarrow> True
      | Some (m, c) \<Rightarrow> plain (grp_text c 1) \<or> syn (grp_text c 1) = None)"

text \<open>
  A document that ends with a cell tag without content behind which no closing cell tag
  follows, cut in front of that tag.
\<close>

definition kept_front :: string where
  "kept_front = ''<mxGraphModel><root>'' @ plain_cell"

definition kept_tail :: string where
  "kept_tail = stub_doc @ ''</root></mxGraphModel>''"


section \<open>Evaluation\<close>

text \<open>
  The case mappings and the class \<^verbatim>\<open>\w\<close> in terms of the bits of a character (the lowest
  bit first): by these equations the closed instances below are evaluated.
\<close>

lemma upc_bits [code]:
  "upc (Char b0 b1 b2 b3 b4 b5 b6 b7) =
     Char b0 b1 b2 b3 b4
       (b5 \<and> \<not> (b6 \<and> (if b7 then \<not> (b4 \<and> b2 \<and> b1 \<and> b0)
                          else (b0 \<or> b1 \<or> b2 \<or> b3 \<or> b4) \<and> \<not> (b4 \<and> b3 \<and> (b2 \<or> b1 \<and> b0)))))
       b6 b7"
  by (cases b0; cases b1; cases b2; cases b3; cases b4; cases b5; cases b6; cases b7)
     (simp_all add: upc_def lowers_def uppers_def)

lemma lowc_bits [code]:
  "lowc (Char b0 b1 b2 b3 b4 b5 b6 b7) =
     Char b0 b1 b2 b3 b4
       (b5 \<or> b6 \<and> (if b7 then \<not> (b4 \<and> b2 \<and> b1 \<and> b0)
                       else (b0 \<or> b1 \<or> b2 \<or> b3 \<or> b4) \<and> \<not> (b4 \<and> b3 \<and> (b2 \<or> b1 \<and> b0))))
       b6 b7"
  by (cases b0; cases b1; cases b2; cases b3; cases b4; cases b5; cases b6; cases b7)
     (simp_all add: lowc_def lowers_def uppers_def)

lemma is_word_bits [code]:
  "is_word (Char b0 b1 b2 b3 b4 b5 b6 b7) =
     (\<not> b7 \<and>
      (if b6 then (b0 \<or> b1 \<or> b2 \<or> b3 \<or> b4) \<and> \<not> (b4 \<and> b3 \<and> (b2 \<or> b1 \<and> b0)) \<or>
                  \<not> b5 \<and> b4 \<and> b3 \<and> b2 \<and> b1 \<and> b0
       else b5 \<and> b4 \<and> \<not> (b3 \<and> (b2 \<or> b1))))"
  by (cases b0; cases b1; cases b2; cases b3; cases b4; cases b5; cases b6; cases b7)
     (simp_all add: is_word_def letters_def digits_def)

section \<open>Properties of the mutator\<close>

lemma first_applied_append:
  "first_applied (xs @ ys) = (case first_applied xs of Some out \<Rightarrow> Some out | None \<Rightarrow> first_applied ys)"
  by (induction xs rule: first_applied.induct) simp_all

lemma remove_loop_attempts:
  "remove_loop syn ps u xml = first_applied (map (remove_attempt syn u xml) ps)"
  by (induction ps) (auto simp: remove_attempt_def Let_def split: option.splits prod.splits)

lemma change_loop_attempts:
  "change_loop ps u xml = first_applied (map (change_attempt u xml) ps)"
  by (induction ps) (auto simp: change_attempt_def Let_def split: option.splits prod.splits)

lemma connection_loop_attempts:
  "connection_loop ps u xml = first_applied (map (connection_attempt u xml) ps)"
  by (induction ps) (auto simp: connection_attempt_def Let_def split: option.splits prod.splits)

lemma add_loop_attempts:
  "add_loop k ps u xml = first_applied (map (add_attempt k u xml) ps)"
  by (induction ps) (auto simp: add_attempt_def Let_def split: option.splits prod.splits)

lemma property_loop_attempts:
  "property_loop ps u xml = first_applied (map (property_attempt u xml) ps)"
  by (induction ps) (auto simp: property_attempt_def Let_def split: option.splits prod.splits)

lemma contextual_attempts:
  "contextual u xml = first_applied [contextual_attempt u xml]"
  by (auto simp: contextual_def contextual_attempt_def split: prod.splits)

text \<open>
  Claim C1. The mutator applies the transform of at most one intent category. The
  patterns are tried category by category, in the order Remove, Replace/Rename,
  DisconnectEdges, Add, ModifyProperty, then ContextualBulkResize; the mutator returns
  the document and the change records of the first attempt whose pattern matches the
  instruction and whose transform reports success, whatever the later patterns and
  categories would match or do; when no attempt is applied, the document comes back with
  no change record.
\<close>

theorem first_category_wins:
  "makeActualXmlChanges syn maxArgs userInput xml =
     (case first_applied (attempts syn maxArgs userInput xml) of
        Some out \<Rightarrow> out
      | None \<Rightarrow> (xml, []))"
  unfolding makeActualXmlChanges_def attempts_def first_applied_append
    remove_loop_attempts change_loop_attempts connection_loop_attempts add_loop_attempts
    property_loop_attempts contextual_attempts
  by (simp split: option.splits)

text \<open>
  Two instances. The first instruction matches a pattern of Remove and a pattern of Add,
  both transforms report success, and Remove alone is applied. The second matches a
  pattern of Replace/Rename, whose transform fails, and a pattern of ModifyProperty,
  which is applied.
\<close>

theorem first_category_wins_witness:
  "remove_attempt (\<lambda>t. None) remove_and_add gpu_doc (removePatterns ! 0) =
     Applied (''<mxGraphModel></mxGraphModel>'', [''Removed GPU component and its connections'']) \<and>
   is_applied (add_attempt 65535 remove_and_add gpu_doc (addPatterns ! 0)) \<and>
   makeActualXmlChanges (\<lambda>t. None) 65535 remove_and_add gpu_doc =
     (''<mxGraphModel></mxGraphModel>'', [''Removed GPU component and its connections'']) \<and>
   change_attempt set_color gpu_doc (changePatterns ! 1) = Failed \<and>
   property_attempt set_color gpu_doc (propertyPatterns ! 2) =
     Applied (''<mxGraphModel>'' @ gpu_cell ''#ff0000'' @ ''</mxGraphModel>'',
              [''Changed GPU color to red'']) \<and>
   makeActualXmlChanges (\<lambda>t. None) 65535 set_color gpu_doc =
     (''<mxGraphModel>'' @ gpu_cell ''#ff0000'' @ ''</mxGraphModel>'', [''Changed GPU color to red''])"
proof -
  have a1: "first_applied (attempts (\<lambda>t. None) 65535 remove_and_add gpu_doc) =
              Some (''<mxGraphModel></mxGraphModel>'', [''Removed GPU component and its connections''])"
    by code_simp
  have a2: "first_applied (attempts (\<lambda>t. None) 65535 set_color gpu_doc) =
              Some (''<mxGraphModel>'' @ gpu_cell ''#ff0000'' @ ''</mxGraphModel>'',
                    [''Changed GPU color to red''])"
    by code_simp
  have t1: "remove_attempt (\<lambda>t. None) remove_and_add gpu_doc (removePatterns ! 0) =
     Applied (''<mxGraphModel></mxGraphModel>'', [''Removed GPU component and its connections''])"
    by code_simp
  have t2: "is_applied (add_attempt 65535 remove_and_add gpu_doc (addPatterns ! 0))" by code_simp
  have t3: "change_attempt set_color gpu_doc (changePatterns ! 1) = Failed" by code_simp
  have t4: "property_attempt set_color gpu_doc (propertyPatterns ! 2) =
     Applied (''<mxGraphModel>'' @ gpu_cell ''#ff0000'' @ ''</mxGraphModel>'',
              [''Changed GPU color to red''])"
    by code_simp
  from first_category_wins [of "\<lambda>t. None" 65535 remove_and_add gpu_doc]
    first_category_wins [of "\<lambda>t. None" 65535 set_color gpu_doc]
  show ?thesis unfolding a1 a2 using t1 t2 t3 t4 by simp
qed

text \<open>Every category that succeeds reports at least one change.\<close>

lemma remove_loop_changes: "remove_loop syn ps u x = Some (x', ch) \<Longrightarrow> ch \<noteq> []"
  by (induction ps) (auto split: option.splits prod.splits if_splits simp: Let_def)

lemma change_loop_changes: "change_loop ps u x = Some (x', ch) \<Longrightarrow> ch \<noteq> []"
  by (induction ps) (auto split: option.splits prod.splits if_splits simp: Let_def)

lemma connection_loop_changes: "connection_loop ps u x = Some (x', ch) \<Longrightarrow> ch \<noteq> []"
  by (induction ps) (auto split: option.splits prod.splits if_splits simp: Let_def)

lemma add_loop_changes: "add_loop k ps u x = Some (x', ch) \<Longrightarrow> ch \<noteq> []"
  by (induction ps) (auto split: option.splits prod.splits if_splits simp: Let_def)

lemma property_loop_changes: "property_loop ps u x = Some (x', ch) \<Longrightarrow> ch \<noteq> []"
  by (induction ps) (auto split: option.splits prod.splits if_splits simp: Let_def)

lemma contextual_changes: "contextual u x = Some (x', ch) \<Longrightarrow> ch \<noteq> []"
  by (auto simp: contextual_def handleContextualChanges_def Let_def split: prod.splits if_splits)

text \<open>
  Claim C7. When the change list that the mutator returns is empty, the document it
  returns is the input document: no edited document comes with an empty change list.
\<close>

theorem no_change_no_edit:
  assumes "snd (makeActualXmlChanges syn maxArgs userInput xml) = []"
  shows "fst (makeActualXmlChanges syn maxArgs userInput xml) = xml"
  using assms
  by (auto simp: makeActualXmlChanges_def split: option.splits
      dest: remove_loop_changes change_loop_changes connection_loop_changes
        add_loop_changes property_loop_changes contextual_changes)

theorem no_change_no_edit_witness:
  "snd (makeActualXmlChanges (\<lambda>t. None) 65535 ''hello'' ''<mxGraphModel/>'') = [] \<and>
   fst (makeActualXmlChanges (\<lambda>t. None) 65535 ''hello'' ''<mxGraphModel/>'') = ''<mxGraphModel/>''"
proof -
  have h: "snd (makeActualXmlChanges (\<lambda>t. None) 65535 ''hello'' ''<mxGraphModel/>'') = []"
    by code_simp
  from no_change_no_edit [OF h] h show ?thesis by simp
qed

text \<open>
  Claim C6. On a document without closing root tag an instruction of the Add intent
  should leave the document unchanged and report no change. The code leaves the document
  unchanged but reports the change: \<^verbatim>\<open>addComponent\<close> returns success whether or not the
  insertion found the tag.
\<close>

theorem add_reports_change_without_root:
  "makeActualXmlChanges (\<lambda>t. None) maxArgs ''add a RAM component'' ''<mxGraphModel/>'' =
     (''<mxGraphModel/>'', [''Added new RAM component to the architecture''])"
  by code_simp

text \<open>
  Claim C4. ModifyProperty should fail when the component pattern matches no node of the
  document. In the code both branches return success whether or not the pattern matched:
  for the component XYZ, which the document does not have, the document comes back
  unchanged with a change record, and the mutator does not fall through.
\<close>

theorem property_reports_success_without_match:
  "makeActualXmlChanges (\<lambda>t. None) maxArgs ''set XYZ color to red'' gpu_doc =
     (gpu_doc, [''Changed XYZ color to red'']) \<and>
   makeActualXmlChanges (\<lambda>t. None) maxArgs ''resize XYZ to 150'' gpu_doc =
     (gpu_doc, [''Changed XYZ size to 150x150'']) \<and>
   modifyComponentProperty gpu_doc ''XYZ'' ''red'' ''set XYZ color to red'' =
     (True, gpu_doc, ''Changed XYZ color to red'') \<and>
   modifyComponentProperty gpu_doc ''XYZ'' ''150'' ''resize XYZ to 150'' =
     (True, gpu_doc, ''Changed XYZ size to 150x150'')"
  by code_simp

text \<open>
  Claim C5. Add should number the new node with the largest numeric identifier plus
  one, and with 1 when the document has no numeric identifier. In the code the maximum of
  no identifier is \<^verbatim>\<open>-Infinity\<close>, and the new node gets the identifier \<^verbatim>\<open>-Infinity\<close>.
\<close>

theorem add_without_numeric_id:
  "addComponent maxArgs ''<mxGraphModel></mxGraphModel>'' ''ram'' =
     (True, ''<mxGraphModel>'' @ newComponent NegInfinity ''ram'' @ nl @ ''  </mxGraphModel>'') \<and>
   take 31 (newComponent NegInfinity ''ram'') =
     nl @ ''        <mxCell id='' @ dq @ ''-Infinity'' @ dq"
  by code_simp

text \<open>
  Claim C9. A colour word outside the eight names should be written through as it is.
  The words \<^verbatim>\<open>constructor\<close> and \<^verbatim>\<open>__proto__\<close> are not: the lookup in the object literal
  finds the inherited property, and its text becomes the fill colour.
\<close>

theorem inherited_color_word:
  "makeActualXmlChanges (\<lambda>t. None) maxArgs ''set GPU color to constructor'' gpu_doc =
     (''<mxGraphModel>'' @ gpu_cell ''function Object() { [native code] }'' @ ''</mxGraphModel>'',
      [''Changed GPU color to constructor''])"
  by code_simp

section \<open>Whole-word replacement\<close>

lemma upc_idem: "upc (upc x) = upc x"
  by (simp add: upc_def lowers_def uppers_def)

lemma is_word_upc: "is_word (upc x) = is_word x"
  by (simp add: upc_def is_word_def letters_def lowers_def uppers_def digits_def)

lemma rmatch_lit:
  "rmatch ic (lit w) k (p, s, c) =
     (case strip_lit ic w p s of None \<Rightarrow> None | Some (p', s') \<Rightarrow> k (p', s', c))"
  by (induction w arbitrary: p s) (auto split: list.splits)

lemma strip_lit_Some:
  "strip_lit True w p s = Some (p', s') \<longleftrightarrow>
     (\<exists>u. s = u @ s' \<and> map upc u = map upc w \<and> p' = (if u = [] then p else Some (last u)))"
proof (induction w arbitrary: p s)
  case Nil
  then show ?case by auto
next
  case (Cons a w)
  show ?case
  proof (cases s)
    case Nil
    then show ?thesis by auto
  next
    case (Cons x xs)
    show ?thesis
    proof (cases "upc a = upc x")
      case False
      then show ?thesis using Cons by (auto simp: Cons_eq_append_conv)
    next
      case True
      have "strip_lit True (a # w) p s = strip_lit True w (Some x) xs"
        using True Cons by simp
      also have "\<dots> = Some (p', s') \<longleftrightarrow>
         (\<exists>u. xs = u @ s' \<and> map upc u = map upc w \<and> p' = (if u = [] then Some x else Some (last u)))"
        by (rule Cons.IH)
      also have "\<dots> \<longleftrightarrow>
         (\<exists>u. s = u @ s' \<and> map upc u = map upc (a # w) \<and> p' = (if u = [] then p else Some (last u)))"
        (is "?L \<longleftrightarrow> ?R")
      proof
        assume ?L
        then obtain u where u: "xs = u @ s'" "map upc u = map upc w"
          "p' = (if u = [] then Some x else Some (last u))" by blast
        then show ?R using True Cons by (intro exI [of _ "x # u"]) auto
      next
        assume ?R
        then obtain u where u: "s = u @ s'" "map upc u = map upc (a # w)"
          "p' = (if u = [] then p else Some (last u))" by blast
        then obtain u' where "u = x # u'" using Cons by (cases u) auto
        with u Cons show ?L by (intro exI [of _ u']) auto
      qed
      finally show ?thesis .
    qed
  qed
qed

lemma same_upc_word: "map upc u = map upc w \<Longrightarrow> list_all is_word w \<Longrightarrow> list_all is_word u"
proof (induction u arbitrary: w)
  case Nil
  then show ?case by simp
next
  case (Cons x u)
  then obtain a w' where w: "w = a # w'" by (cases w) auto
  with Cons have "upc x = upc a" "is_word a" by auto
  then have "is_word x" by (metis is_word_upc)
  with Cons w show ?case by auto
qed

lemma gscan_skip:
  "u \<noteq> [] \<Longrightarrow> gscan ic r (length u) p (u @ rest) = gscan ic r 0 (Some (last u)) rest"
proof (induction u arbitrary: p)
  case Nil
  then show ?case by simp
next
  case (Cons x u)
  show ?case
  proof (cases u)
    case Nil
    then show ?thesis by simp
  next
    case (Cons y ys)
    with Cons.IH [of "Some x"] show ?thesis by simp
  qed
qed

lemma exec_word:
  "exec True (wordRegex w) p s =
     (if word_before p \<noteq> word_here s then
        (case strip_lit True w p s of
           None \<Rightarrow> None
         | Some (p', s') \<Rightarrow>
             if word_before p' \<noteq> word_here s' then Some (take (length s - length s') s, [])
             else None)
      else None)"
  by (simp add: exec_def wordRegex_def rmatch_lit split: option.splits)

lemma name_same_word:
  assumes "is_name w" "same_word w t"
  shows "t \<noteq> []" "list_all is_word t"
proof -
  from assms have m: "map upc t = map upc w" by (simp add: same_word_def toUpperCase_def)
  from assms(1) have "w \<noteq> []" "list_all is_word w" by (simp_all add: is_name_def)
  with m show "t \<noteq> []" by auto
  from m \<open>list_all is_word w\<close> show "list_all is_word t" by (rule same_upc_word)
qed

text \<open>No match starts at a character that is no word character.\<close>

lemma exec_word_gap:
  assumes "is_name w" "\<not> is_word x"
  shows "exec True (wordRegex w) p (x # xs) = None"
proof -
  from assms(1) obtain a w' where w: "w = a # w'" "is_word a"
    by (cases w) (auto simp: is_name_def)
  have "upc a \<noteq> upc x"
  proof
    assume "upc a = upc x"
    then have "is_word x = is_word a" by (metis is_word_upc)
    with w assms(2) show False by simp
  qed
  then show ?thesis by (simp add: exec_word w)
qed

lemma exec_word_nil: "is_name w \<Longrightarrow> exec True (wordRegex w) p [] = None"
  by (cases w) (auto simp: exec_word is_name_def)

text \<open>No match starts behind a word character.\<close>

lemma exec_word_inside:
  assumes "word_before p" "is_word x"
  shows "exec True (wordRegex w) p (x # xs) = None"
  using assms by (simp add: exec_word word_here_def)

lemma gscan_gap:
  assumes "is_name w" "list_all (\<lambda>x. \<not> is_word x) t"
  shows "gscan True (wordRegex w) 0 p (t @ rest) =
           map Txt t @ gscan True (wordRegex w) 0 (if t = [] then p else Some (last t)) rest"
  using assms(2)
proof (induction t arbitrary: p)
  case Nil
  then show ?case by simp
next
  case (Cons x t)
  then show ?case using exec_word_gap [OF assms(1), of x] by simp
qed

lemma gscan_inside:
  assumes "list_all is_word t" "word_before p"
  shows "gscan True (wordRegex w) 0 p (t @ rest) =
           map Txt t @ gscan True (wordRegex w) 0 (if t = [] then p else Some (last t)) rest"
  using assms
proof (induction t arbitrary: p)
  case Nil
  then show ?case by simp
next
  case (Cons x t)
  from Cons.prems have x: "is_word x" and t: "list_all is_word t" by simp_all
  have wb: "word_before (Some x)" using x by (simp add: word_before_def)
  from Cons.IH [OF t wb] exec_word_inside [OF Cons.prems(2) x]
  show ?case by simp
qed

text \<open>A maximal run of word characters is matched as a whole or not at all.\<close>

lemma exec_word_token:
  assumes w: "is_name w" and t: "t \<noteq> []" "list_all is_word t"
    and rest: "\<not> word_here rest" and p: "\<not> word_before p"
  shows "exec True (wordRegex w) p (t @ rest) = (if same_word w t then Some (t, []) else None)"
proof (cases "same_word w t")
  case True
  then have m: "map upc t = map upc w" by (simp add: same_word_def toUpperCase_def)
  have "strip_lit True w p (t @ rest) = Some (Some (last t), rest)"
    unfolding strip_lit_Some using m t by (intro exI [of _ t]) simp
  moreover have "word_here (t @ rest)" using t by (cases t) (auto simp: word_here_def)
  moreover have "word_before (Some (last t))"
    using t by (induction t) (auto simp: word_before_def)
  ultimately show ?thesis using True rest p by (simp add: exec_word)
next
  case False
  have "exec True (wordRegex w) p (t @ rest) = None"
  proof (rule ccontr)
    assume "exec True (wordRegex w) p (t @ rest) \<noteq> None"
    then obtain p' s' where s: "strip_lit True w p (t @ rest) = Some (p', s')"
      and b: "word_before p' \<noteq> word_here s'"
      by (auto simp: exec_word split: if_splits option.splits)
    from s obtain u where u: "t @ rest = u @ s'" "map upc u = map upc w"
      "p' = (if u = [] then p else Some (last u))"
      unfolding strip_lit_Some by blast
    from w have wn: "w \<noteq> []" "list_all is_word w" by (simp_all add: is_name_def)
    from u(2) wn have un: "u \<noteq> []" "list_all is_word u"
      using same_upc_word by auto
    then have "word_before p'" using u(3) by (induction u) (auto simp: word_before_def)
    with b have s': "\<not> word_here s'" by simp
    have "takeWhile is_word (t @ rest) = t"
      using t rest by (cases rest) (auto simp: word_here_def list_all_iff takeWhile_append)
    moreover have "takeWhile is_word (u @ s') = u"
      using un s' by (cases s') (auto simp: word_here_def list_all_iff takeWhile_append)
    ultimately have "t = u" using u(1) by simp
    with u(2) False show False by (simp add: same_word_def toUpperCase_def)
  qed
  with False show ?thesis by simp
qed

lemma gscan_word:
  assumes w: "is_name w" and t: "t \<noteq> []" "list_all is_word t"
    and rest: "\<not> word_here rest" and p: "\<not> word_before p"
  shows "gscan True (wordRegex w) 0 p (t @ rest) =
           (if same_word w t then [Hit t []] else map Txt t) @
           gscan True (wordRegex w) 0 (Some (last t)) rest"
proof -
  from t obtain x t' where tx: "t = x # t'" by (cases t) auto
  have x: "is_word x" and t': "list_all is_word t'" using t tx by simp_all
  have e: "exec True (wordRegex w) p (x # t' @ rest) = (if same_word w t then Some (t, []) else None)"
    using exec_word_token [OF w t rest p] tx by simp
  show ?thesis
  proof (cases "same_word w t")
    case True
    show ?thesis
    proof (cases t')
      case Nil
      with True e tx show ?thesis by simp
    next
      case (Cons y ys)
      then have "t' \<noteq> []" by simp
      from gscan_skip [OF this, of True "wordRegex w" "Some x" rest]
      show ?thesis using True e tx Cons by simp
    qed
  next
    case False
    have wb: "word_before (Some x)" using x by (simp add: word_before_def)
    from gscan_inside [OF t' wb, of w rest] False e tx show ?thesis by simp
  qed
qed

lemma tokens_unfold:
  "tokens (x # xs) =
     (x # takeWhile (\<lambda>y. is_word y = is_word x) xs) #
     tokens (dropWhile (\<lambda>y. is_word y = is_word x) xs)"
proof (induction xs arbitrary: x)
  case Nil
  then show ?case by simp
next
  case (Cons y ys)
  show ?case
  proof (cases "is_word y = is_word x")
    case True
    then have "(\<lambda>z. is_word z = is_word y) = (\<lambda>z. is_word z = is_word x)" by auto
    with Cons [of y] True show ?thesis by simp
  next
    case False
    with Cons [of y] show ?thesis by auto
  qed
qed

lemma gscan_tokens:
  assumes w: "is_name w"
  shows "(word_here s \<longrightarrow> \<not> word_before p) \<Longrightarrow>
         gscan True (wordRegex w) 0 p s =
           concat (map (\<lambda>t. if same_word w t then [Hit t []] else map Txt t) (tokens s))"
proof (induction s arbitrary: p rule: length_induct)
  case (1 s)
  show ?case
  proof (cases s)
    case Nil
    then show ?thesis using exec_word_nil [OF w] by simp
  next
    case (Cons x xs)
    define t where "t = x # takeWhile (\<lambda>y. is_word y = is_word x) xs"
    define rest where "rest = dropWhile (\<lambda>y. is_word y = is_word x) xs"
    have s: "s = t @ rest" by (simp add: t_def rest_def Cons)
    have tk: "tokens s = t # tokens rest" unfolding Cons tokens_unfold t_def rest_def ..
    have len: "length rest < length s" by (simp add: s t_def)
    have tn: "t \<noteq> []" by (simp add: t_def)
    have "\<forall>y \<in> set t. is_word y = is_word x"
      by (auto simp: t_def dest: set_takeWhileD)
    then have last_t: "is_word (last t) = is_word x"
      using tn last_in_set by blast
    have rest_hd: "rest \<noteq> [] \<Longrightarrow> is_word (hd rest) \<noteq> is_word x"
      unfolding rest_def using hd_dropWhile [of "\<lambda>y. is_word y = is_word x" xs] by simp
    have inv: "word_here rest \<longrightarrow> \<not> word_before (Some (last t))"
      using last_t rest_hd by (cases rest) (auto simp: word_here_def word_before_def)
    have IH: "gscan True (wordRegex w) 0 (Some (last t)) rest =
           concat (map (\<lambda>t. if same_word w t then [Hit t []] else map Txt t) (tokens rest))"
      using 1(1) [rule_format, OF len, of "Some (last t)"] inv by simp
    show ?thesis
    proof (cases "is_word x")
      case True
      have tw: "list_all is_word t"
        using True by (auto simp: t_def list_all_iff dest: set_takeWhileD)
      have nr: "\<not> word_here rest"
        using rest_hd True by (cases rest) (auto simp: word_here_def)
      have np: "\<not> word_before p" using 1(2) True Cons by (simp add: word_here_def)
      from gscan_word [OF w tn tw nr np] IH tk s show ?thesis by simp
    next
      case False
      have tg: "list_all (\<lambda>x. \<not> is_word x) t"
        using False by (auto simp: t_def list_all_iff dest: set_takeWhileD)
      have ns: "\<not> same_word w t"
        using name_same_word(2) [OF w, of t] False by (auto simp: t_def)
      from gscan_gap [OF w tg, of p rest] IH tk s tn ns show ?thesis by simp
    qed
  qed
qed

lemma hits_concat:
  "hits (concat (map (\<lambda>t. if P t then [Hit t []] else map Txt t) ts)) = filter P ts"
proof (induction ts)
  case Nil
  then show ?case by simp
next
  case (Cons t ts)
  have "hits (map Txt t @ ps) = hits ps" for ps by (induction t) auto
  with Cons show ?case by simp
qed

lemma subst_concat:
  "subst [TLit r] (concat (map (\<lambda>t. if P t then [Hit t []] else map Txt t) ts)) =
     concat (map (\<lambda>t. if P t then r else t) ts)"
proof (induction ts)
  case Nil
  then show ?case by simp
next
  case (Cons t ts)
  have "subst [TLit r] (map Txt t @ ps) = t @ subst [TLit r] ps" for ps by (induction t) auto
  with Cons show ?case by simp
qed

lemma replaceComponent_words:
  assumes "is_name w"
  shows "replaceComponent xml w t =
           (if whole_words w xml = [] then (False, xml, 0)
            else (True, replace_words w t xml, length (whole_words w xml)))"
proof -
  have "gscan True (wordRegex w) 0 None xml =
           concat (map (\<lambda>t. if same_word w t then [Hit t []] else map Txt t) (tokens xml))"
    by (rule gscan_tokens [OF assms]) (simp add: word_before_def)
  then show ?thesis
    by (simp add: replaceComponent_def match_all_def replace_all_def hits_concat subst_concat
        whole_words_def replace_words_def Let_def)
qed

lemma tokens_decomp:
  obtains t rest where "x # xs = t @ rest" "tokens (x # xs) = t # tokens rest" "t \<noteq> []"
    "\<forall>y \<in> set t. is_word y = is_word x" "rest \<noteq> [] \<longrightarrow> is_word (hd rest) \<noteq> is_word x"
    "length rest < length (x # xs)"
proof
  let ?P = "\<lambda>y. is_word y = is_word x"
  show "x # xs = (x # takeWhile ?P xs) @ dropWhile ?P xs" by simp
  show "tokens (x # xs) = (x # takeWhile ?P xs) # tokens (dropWhile ?P xs)"
    by (rule tokens_unfold)
  show "x # takeWhile ?P xs \<noteq> []" by simp
  show "\<forall>y \<in> set (x # takeWhile ?P xs). is_word y = is_word x"
    by (auto dest: set_takeWhileD)
  show "dropWhile ?P xs \<noteq> [] \<longrightarrow> is_word (hd (dropWhile ?P xs)) \<noteq> is_word x"
    using hd_dropWhile [of ?P xs] by simp
  show "length (dropWhile ?P xs) < length (x # xs)"
    by (simp add: length_dropWhile_le less_Suc_eq_le)
qed

lemma tokens_token:
  assumes "t \<noteq> []" "\<forall>y \<in> set t. is_word y = b" "rest \<noteq> [] \<longrightarrow> is_word (hd rest) \<noteq> b"
  shows "tokens (t @ rest) = t # tokens rest"
proof -
  from assms(1) obtain x t' where t: "t = x # t'" by (cases t) auto
  let ?P = "\<lambda>y. is_word y = is_word x"
  from assms(2) t have b: "is_word x = b" and t': "\<forall>y \<in> set t'. ?P y" by auto
  have "takeWhile ?P (t' @ rest) = t'"
    using t' assms(3) b by (cases rest) (auto simp: takeWhile_append)
  moreover have "dropWhile ?P (t' @ rest) = rest"
    using t' assms(3) b by (cases rest) (auto simp: dropWhile_append)
  ultimately show ?thesis by (simp add: t tokens_unfold del: tokens.simps)
qed

lemma tokens_nonempty: "t \<in> set (tokens s) \<Longrightarrow> t \<noteq> []"
  by (induction s arbitrary: t) (auto split: list.splits if_splits)

lemma tokens_map:
  assumes f: "\<And>t b. t \<noteq> [] \<Longrightarrow> \<forall>y \<in> set t. is_word y = b \<Longrightarrow>
                 f t \<noteq> [] \<and> (\<forall>y \<in> set (f t). is_word y = b)"
  shows "tokens (concat (map f (tokens s))) = map f (tokens s)"
proof (induction s rule: length_induct)
  case (1 s)
  show ?case
  proof (cases s)
    case Nil
    then show ?thesis by simp
  next
    case (Cons x xs)
    obtain t rest where d: "x # xs = t @ rest" "tokens (x # xs) = t # tokens rest" "t \<noteq> []"
      "\<forall>y \<in> set t. is_word y = is_word x" "rest \<noteq> [] \<longrightarrow> is_word (hd rest) \<noteq> is_word x"
      "length rest < length (x # xs)"
      by (rule tokens_decomp)
    have IH: "tokens (concat (map f (tokens rest))) = map f (tokens rest)"
      using 1 d(6) Cons by simp
    from f [OF d(3) d(4)] have ft: "f t \<noteq> []" "\<forall>y \<in> set (f t). is_word y = is_word x"
      by simp_all
    let ?R = "concat (map f (tokens rest))"
    have "?R \<noteq> [] \<longrightarrow> is_word (hd ?R) \<noteq> is_word x"
    proof (cases rest)
      case Nil
      then show ?thesis by simp
    next
      case (Cons y ys)
      obtain t2 rest2 where d2: "y # ys = t2 @ rest2" "tokens (y # ys) = t2 # tokens rest2"
        "t2 \<noteq> []" "\<forall>z \<in> set t2. is_word z = is_word y"
        by (rule tokens_decomp)
      from f [OF d2(3) d2(4)] have ft2: "f t2 \<noteq> []" "\<forall>z \<in> set (f t2). is_word z = is_word y"
        by simp_all
      then have "is_word (hd (f t2)) = is_word y" by (cases "f t2") auto
      moreover have "is_word y \<noteq> is_word x" using d(5) Cons by simp
      moreover have "hd ?R = hd (f t2)" using ft2(1) d2(2) Cons by simp
      ultimately show ?thesis by simp
    qed
    from tokens_token [OF ft this] IH d(2) Cons show ?thesis by simp
  qed
qed

lemma whole_words_replaced:
  assumes w: "is_name w" and t: "is_name t"
  shows "whole_words w (replace_words w t xml) =
           (if same_word w t then map (\<lambda>tok. toUpperCase t) (whole_words w xml) else [])"
proof -
  let ?f = "\<lambda>tok. if same_word w tok then toUpperCase t else tok"
  have up: "toUpperCase t \<noteq> []" "list_all is_word (toUpperCase t)"
    using t by (simp_all add: is_name_def toUpperCase_def list_all_iff is_word_upc)
  have f: "u \<noteq> [] \<Longrightarrow> \<forall>y \<in> set u. is_word y = b \<Longrightarrow>
             ?f u \<noteq> [] \<and> (\<forall>y \<in> set (?f u). is_word y = b)" for u b
  proof (cases "same_word w u")
    case False
    assume "u \<noteq> []" "\<forall>y \<in> set u. is_word y = b"
    with False show ?thesis by simp
  next
    case True
    assume u: "u \<noteq> []" "\<forall>y \<in> set u. is_word y = b"
    from name_same_word(2) [OF w True] u have "b" by (cases u) (auto simp: list_all_iff)
    with True up show ?thesis by (simp add: list_all_iff)
  qed
  have tk: "tokens (replace_words w t xml) = map ?f (tokens xml)"
    unfolding replace_words_def by (rule tokens_map) (rule f)
  have s: "same_word w (toUpperCase t) = same_word w t"
    by (simp add: same_word_def toUpperCase_def upc_idem comp_def)
  have "filter (same_word w) (map ?f ts) =
          (if same_word w t then map (\<lambda>tok. toUpperCase t) (filter (same_word w) ts) else [])" for ts
    by (induction ts) (simp_all add: s)
  then show ?thesis unfolding whole_words_def tk .
qed

text \<open>
  Claim C3, amended. For names \<open>from\<close> and \<open>to\<close> as \<^verbatim>\<open>(\w+)\<close> captures them: Replace
  fails and leaves the document unchanged when \<open>from\<close> has no whole-word occurrence
  (letter case ignored); otherwise it replaces every such occurrence by the upper-cased
  \<open>to\<close> and reports their number \<open>n\<close>. When \<open>to\<close> differs from \<open>from\<close> by more than
  letter case, no whole-word occurrence of \<open>from\<close> is left in the result; when \<open>to\<close> is
  \<open>from\<close> up to letter case, the result has \<open>n\<close> of them, each the upper-cased \<open>to\<close>.
\<close>

theorem replace_whole_words:
  assumes "is_name fromComponent" "is_name toComponent"
  shows "replaceComponent xml fromComponent toComponent =
           (if whole_words fromComponent xml = [] then (False, xml, 0)
            else (True, replace_words fromComponent toComponent xml,
                  length (whole_words fromComponent xml))) \<and>
         whole_words fromComponent (replace_words fromComponent toComponent xml) =
           (if same_word fromComponent toComponent
            then map (\<lambda>tok. toUpperCase toComponent) (whole_words fromComponent xml) else [])"
  using replaceComponent_words [OF assms(1)] whole_words_replaced [OF assms] by simp

theorem replace_whole_words_witness:
  "is_name ''gpu'' \<and> is_name ''cpu'' \<and>
   whole_words ''gpu'' gpu_doc = [''GPU''] \<and> \<not> same_word ''gpu'' ''cpu'' \<and>
   replaceComponent gpu_doc ''gpu'' ''cpu'' = (True, replace_words ''gpu'' ''cpu'' gpu_doc, 1) \<and>
   whole_words ''gpu'' (replace_words ''gpu'' ''cpu'' gpu_doc) = []"
proof -
  have h1: "is_name ''gpu''" by code_simp
  have h2: "is_name ''cpu''" by code_simp
  have h3: "\<not> same_word ''gpu'' ''cpu''" by code_simp
  have n: "whole_words ''gpu'' gpu_doc = [''GPU'']" by code_simp
  from replace_whole_words [OF h1 h2, of gpu_doc] h1 h2 h3 n show ?thesis by simp
qed

text \<open>
  The claim as the specification has it fails when \<open>to\<close> is \<open>from\<close> up to letter case:
  the one occurrence is replaced and counted, and the result still has it.
\<close>

theorem replace_same_word_counterexample:
  "length (whole_words ''gpu'' gpu_doc) = 1 \<and>
   replaceComponent gpu_doc ''gpu'' ''GPU'' = (True, gpu_doc, 1) \<and>
   length (whole_words ''gpu'' (fst (snd (replaceComponent gpu_doc ''gpu'' ''GPU'')))) = 1"
  by code_simp

section \<open>What a match needs\<close>

lemma greedy_None:
  "greedy ok k st = None \<longleftrightarrow> (\<forall>st' \<in> runs ok st. k st' = None)"
proof (induction ok k st rule: greedy.induct)
  case (1 ok k p c)
  then show ?case by simp
next
  case (2 ok k p x xs c)
  then show ?case by (auto split: option.splits)
qed

lemma greedy_Some:
  "greedy ok k st = Some res \<Longrightarrow> \<exists>st' \<in> runs ok st. k st' = Some res"
proof (induction ok k st rule: greedy.induct)
  case (1 ok k p c)
  then show ?case by simp
next
  case (2 ok k p x xs c)
  then show ?case by (auto split: option.splits if_splits)
qed

lemma lazy_None:
  "lazy ok k st = None \<longleftrightarrow> (\<forall>st' \<in> runs ok st. k st' = None)"
proof (induction ok k st rule: lazy.induct)
  case (1 ok k p c)
  then show ?case by simp
next
  case (2 ok k p x xs c)
  then show ?case by (auto split: option.splits)
qed

lemma lazy_Some:
  "lazy ok k st = Some res \<Longrightarrow> \<exists>st' \<in> runs ok st. k st' = Some res"
proof (induction ok k st rule: lazy.induct)
  case (1 ok k p c)
  then show ?case by simp
next
  case (2 ok k p x xs c)
  then show ?case by (auto split: option.splits if_splits)
qed

lemma rmatch_None:
  "rmatch ic r k st = None \<longleftrightarrow> (\<forall>st' \<in> ends ic r st. k st' = None)"
proof (induction r arbitrary: k st)
  case Eps
  then show ?case by simp
next
  case (Cls cs)
  then show ?case by (cases st) (auto split: list.splits)
next
  case (Seq a b)
  then show ?case by simp
next
  case (Alt a b)
  show ?case
  proof (cases "rmatch ic a k st")
    case None
    with Alt.IH(1) [of k st] Alt.IH(2) [of k st] show ?thesis by auto
  next
    case (Some r)
    with Alt.IH(1) [of k st] show ?thesis by auto
  qed
next
  case (Many cs)
  then show ?case by (simp add: greedy_None)
next
  case (Lazy cs)
  then show ?case by (simp add: lazy_None)
next
  case (Cap n r)
  then show ?case by (cases st) (auto split: prod.splits)
next
  case Bnd
  then show ?case by (cases st) auto
qed

lemma rmatch_Some:
  "rmatch ic r k st = Some res \<Longrightarrow> \<exists>st' \<in> ends ic r st. k st' = Some res"
proof (induction r arbitrary: k st)
  case Eps
  then show ?case by simp
next
  case (Cls cs)
  then show ?case by (cases st) (auto split: list.splits if_splits)
next
  case (Seq a b)
  from Seq.prems have "rmatch ic a (\<lambda>st'. rmatch ic b k st') st = Some res" by simp
  from Seq.IH(1) [OF this] obtain st1 where 1: "st1 \<in> ends ic a st" "rmatch ic b k st1 = Some res"
    by blast
  from Seq.IH(2) [OF 1(2)] 1(1) show ?case by auto
next
  case (Alt a b)
  show ?case
  proof (cases "rmatch ic a k st")
    case None
    with Alt.prems have "rmatch ic b k st = Some res" by simp
    from Alt.IH(2) [OF this] show ?thesis by auto
  next
    case (Some r)
    with Alt.prems have "rmatch ic a k st = Some res" by simp
    from Alt.IH(1) [OF this] show ?thesis by auto
  qed
next
  case (Many cs)
  then show ?case by (simp add: greedy_Some)
next
  case (Lazy cs)
  then show ?case by (simp add: lazy_Some)
next
  case (Cap n r)
  obtain p s c where st: "st = (p, s, c)" by (cases st) auto
  from Cap.prems st Cap.IH [of "\<lambda>(p', s', c'). k (p', s', (n, take (length s - length s') s) # c')" "(p, s, c)"]
  show ?case by (auto split: prod.splits)
next
  case Bnd
  then show ?case by (cases st) (auto split: if_splits)
qed

lemma starts_with_iff: "starts_with t s \<longleftrightarrow> (\<exists>b. s = t @ b)"
  by (induction t s rule: starts_with.induct) auto

lemma includes_str_iff: "includes_str s t \<longleftrightarrow> (\<exists>a b. s = a @ t @ b)"
proof (induction s)
  case Nil
  then show ?case by auto
next
  case (Cons x xs)
  show ?case
  proof
    assume "includes_str (x # xs) t"
    then consider "starts_with t (x # xs)" | "includes_str xs t" by auto
    then show "\<exists>a b. x # xs = a @ t @ b"
    proof cases
      case 1
      then obtain b where "x # xs = t @ b" unfolding starts_with_iff by blast
      then have "x # xs = [] @ t @ b" by simp
      then show ?thesis by blast
    next
      case 2
      with Cons obtain a b where "xs = a @ t @ b" by blast
      then have "x # xs = (x # a) @ t @ b" by simp
      then show ?thesis by blast
    qed
  next
    assume "\<exists>a b. x # xs = a @ t @ b"
    then obtain a b where ab: "x # xs = a @ t @ b" by blast
    show "includes_str (x # xs) t"
    proof (cases a)
      case Nil
      with ab have "starts_with t (x # xs)" unfolding starts_with_iff by auto
      then show ?thesis by simp
    next
      case (Cons y ys)
      with ab have "xs = ys @ t @ b" by simp
      with Cons.IH have "includes_str xs t" by blast
      then show ?thesis by simp
    qed
  qed
qed

text \<open>Matching only moves forward: every end state holds a suffix of the text.\<close>

lemma runs_suffix: "(p', s', c') \<in> runs ok (p, s, c) \<Longrightarrow> \<exists>u. s = u @ s'"
proof (induction s arbitrary: p)
  case Nil
  then show ?case by simp
next
  case (Cons x xs)
  from Cons.prems consider "s' = x # xs" | "(p', s', c') \<in> runs ok (Some x, xs, c)"
    by (auto split: if_splits)
  then show ?case
  proof cases
    case 1
    then show ?thesis by simp
  next
    case 2
    from Cons.IH [OF this] obtain u where "xs = u @ s'" by blast
    then have "x # xs = (x # u) @ s'" by simp
    then show ?thesis by blast
  qed
qed

lemma ends_suffix: "(p', s', c') \<in> ends ic r (p, s, c) \<Longrightarrow> \<exists>u. s = u @ s'"
proof (induction r arbitrary: p s c p' s' c')
  case Eps
  then show ?case by simp
next
  case (Cls cs)
  then show ?case by (cases s) (auto split: if_splits)
next
  case (Seq a b)
  from Seq.prems obtain p1 s1 c1 where 1: "(p1, s1, c1) \<in> ends ic a (p, s, c)"
    "(p', s', c') \<in> ends ic b (p1, s1, c1)" by auto
  from Seq.IH(1) [OF 1(1)] obtain u where "s = u @ s1" by blast
  moreover from Seq.IH(2) [OF 1(2)] obtain v where "s1 = v @ s'" by blast
  ultimately have "s = (u @ v) @ s'" by simp
  then show ?case by blast
next
  case (Alt a b)
  then show ?case by auto
next
  case (Many cs)
  then show ?case using runs_suffix by simp
next
  case (Lazy cs)
  then show ?case using runs_suffix by simp
next
  case (Cap n r)
  then show ?case by auto
next
  case Bnd
  then show ?case by (auto split: if_splits)
qed

lemma rmatch_seq_append:
  "rmatch ic (seq (xs @ ys)) k = rmatch ic (seq xs) (rmatch ic (seq ys) k)"
proof (induction xs arbitrary: k)
  case Nil
  show ?case by (rule ext) simp
next
  case (Cons x xs)
  show ?case by (rule ext) (simp add: Cons.IH)
qed

text \<open>A pattern that ends in a literal text matches only where that text occurs.\<close>

lemma exec_needs_literal:
  assumes "exec True (seq (front @ [lit t])) p s \<noteq> None"
  shows "includes_str (toUpperCase s) (toUpperCase t)"
proof -
  from assms obtain res where
    "rmatch True (seq front) (rmatch True (seq [lit t]) Some) (p, s, []) = Some res"
    by (auto simp: exec_def rmatch_seq_append split: option.splits)
  from rmatch_Some [OF this] obtain p1 s1 c1 where
    1: "(p1, s1, c1) \<in> ends True (seq front) (p, s, [])"
    and 2: "rmatch True (seq [lit t]) Some (p1, s1, c1) = Some res" by auto
  from ends_suffix [OF 1] obtain u where u: "s = u @ s1" by blast
  from 2 obtain p2 s2 where "strip_lit True t p1 s1 = Some (p2, s2)"
    by (auto simp: rmatch_lit split: option.splits)
  then obtain v where v: "s1 = v @ s2" "map upc v = map upc t"
    unfolding strip_lit_Some by blast
  have "toUpperCase s = toUpperCase u @ toUpperCase t @ toUpperCase s2"
    using u v by (simp add: toUpperCase_def)
  then show ?thesis unfolding includes_str_iff by blast
qed

lemma gscan_no_match:
  assumes "\<And>p' a b. s = a @ b \<Longrightarrow> exec ic r p' b = None"
  shows "gscan ic r 0 p s = map Txt s"
  using assms
proof (induction s arbitrary: p)
  case Nil
  from Nil [of "[]" "[]" p] show ?case by simp
next
  case (Cons x xs)
  have 1: "exec ic r p (x # xs) = None" using Cons.prems [of "[]" "x # xs" p] by simp
  have "gscan ic r 0 (Some x) xs = map Txt xs"
  proof (rule Cons.IH)
    fix p' a b
    assume "xs = a @ b"
    then have "x # xs = (x # a) @ b" by simp
    then show "exec ic r p' b = None" by (rule Cons.prems)
  qed
  with 1 show ?case by simp
qed

lemma hits_Txt: "hits (map Txt s) = []"
  by (induction s) auto

lemma subst_Txt: "subst t (map Txt s) = s"
  by (induction s) auto

lemma no_literal_no_match:
  assumes "\<not> includes_str (toUpperCase s) (toUpperCase t)"
  shows "gscan True (seq (front @ [lit t])) 0 p s = map Txt s"
proof (rule gscan_no_match)
  fix p' a b
  assume s: "s = a @ b"
  show "exec True (seq (front @ [lit t])) p' b = None"
  proof (rule ccontr)
    assume "exec True (seq (front @ [lit t])) p' b \<noteq> None"
    from exec_needs_literal [OF this] obtain u v where "toUpperCase b = u @ toUpperCase t @ v"
      unfolding includes_str_iff by blast
    then have "toUpperCase s = (toUpperCase a @ u) @ toUpperCase t @ v"
      using s by (simp add: toUpperCase_def)
    with assms show False unfolding includes_str_iff by blast
  qed
qed

lemma upper_close: "toUpperCase ''</mxCell>'' = ''</MXCELL>''"
  by (simp add: toUpperCase_def upc_def lowers_def uppers_def)

lemma component_no_close:
  assumes "\<not> includes_str (toUpperCase xml) ''</MXCELL>''"
  shows "match_all True (componentRegex n) xml = []"
proof -
  define front where "front =
     [lit ''<mxCell'', Many (CNot ''>''), lit (''value='' @ dq), Many (CNot dq),
      lit n, Many (CNot dq), lit dq, Many (CNot ''>''), lit ''>'', Lazy CAny]"
  have eq: "componentRegex n = seq (front @ [lit ''</mxCell>''])"
    by (simp add: componentRegex_def front_def)
  have "\<not> includes_str (toUpperCase xml) (toUpperCase ''</mxCell>'')"
    unfolding upper_close by (rule assms)
  from no_literal_no_match [OF this, of front None]
  have "gscan True (componentRegex n) 0 None xml = map Txt xml" by (simp only: eq)
  then show ?thesis by (simp only: match_all_def hits_Txt)
qed

lemma edge_no_close:
  assumes "\<not> includes_str (toUpperCase xml) ''</MXCELL>''"
  shows "match_all True edgeRegex xml = []"
proof -
  define front where "front =
     [lit ''<mxCell'', Many (CNot ''>''), lit (''edge='' @ dq @ ''1'' @ dq),
      Many (CNot ''>''), lit ''>'', Lazy CAny]"
  have eq: "edgeRegex = seq (front @ [lit ''</mxCell>''])"
    by (simp add: edgeRegex_def front_def)
  have "\<not> includes_str (toUpperCase xml) (toUpperCase ''</mxCell>'')"
    unfolding upper_close by (rule assms)
  from no_literal_no_match [OF this, of front None]
  have "gscan True edgeRegex 0 None xml = map Txt xml" by (simp only: eq)
  then show ?thesis by (simp only: match_all_def hits_Txt)
qed

text \<open>Without a closing cell tag in the document both transforms match nothing.\<close>

lemma no_closing_tag_no_match:
  assumes "\<not> includes_str (toUpperCase xml) ''</MXCELL>''"
  shows "removeComponent syn xml componentName = (False, xml) \<and>
         fst (removeConnections xml component1 component2) = False \<and>
         fst (snd (removeConnections xml component1 component2)) = xml"
  using component_no_close [OF assms] edge_no_close [OF assms]
  by (simp add: removeComponent_def removeConnections_def Let_def)

section \<open>Cell elements of a well-formed document\<close>

lemma upc_fix: "x \<notin> set lowers \<Longrightarrow> upc x = x"
  by (auto simp: upc_def split: option.splits dest!: map_of_SomeD in_set_zipE)

lemma upc_cases: "upc x = x \<or> (x \<in> set lowers \<and> upc x \<in> set uppers)"
proof (cases "x \<in> set lowers")
  case False
  then show ?thesis by (simp add: upc_fix)
next
  case True
  then show ?thesis by (auto simp: upc_def lowers_def uppers_def)
qed

lemma upc_eq_other: "c \<notin> set uppers \<Longrightarrow> c \<notin> set lowers \<Longrightarrow> upc x = c \<longleftrightarrow> x = c"
  using upc_cases [of x] upc_fix [of c] by auto

lemma starts_ci_iff: "starts_ci w s \<longleftrightarrow> (\<exists>u s'. s = u @ s' \<and> map upc u = map upc w)"
proof
  assume "starts_ci w s"
  then have "s = take (length w) s @ drop (length w) s \<and>
             map upc (take (length w) s) = map upc w"
    by (simp add: starts_ci_def)
  then show "\<exists>u s'. s = u @ s' \<and> map upc u = map upc w" by blast
next
  assume "\<exists>u s'. s = u @ s' \<and> map upc u = map upc w"
  then obtain u s' where u: "s = u @ s'" "map upc u = map upc w" by blast
  from u(2) have "length u = length w" by (metis length_map)
  with u show "starts_ci w s" by (simp add: starts_ci_def)
qed

lemma strip_lit_None_iff: "strip_lit True w p s = None \<longleftrightarrow> \<not> starts_ci w s"
proof -
  have "strip_lit True w p s \<noteq> None \<longleftrightarrow> (\<exists>p' s'. strip_lit True w p s = Some (p', s'))"
    by auto
  also have "\<dots> \<longleftrightarrow> starts_ci w s"
    unfolding strip_lit_Some starts_ci_iff by blast
  finally show ?thesis by blast
qed

lemma strip_lit_SomeD:
  assumes "strip_lit True w p s = Some (p', s')"
  shows "starts_ci w s" "s' = drop (length w) s"
proof -
  from assms obtain u where u: "s = u @ s'" "map upc u = map upc w"
    unfolding strip_lit_Some by blast
  then show "starts_ci w s" unfolding starts_ci_iff by blast
  from u(2) have "length u = length w" by (metis length_map)
  with u(1) show "s' = drop (length w) s" by simp
qed

lemma strip_lit_starts:
  assumes "starts_ci w s"
  shows "\<exists>p'. strip_lit True w p s = Some (p', drop (length w) s)"
proof -
  from assms have "strip_lit True w p s \<noteq> None" by (simp add: strip_lit_None_iff)
  then obtain p' s' where s: "strip_lit True w p s = Some (p', s')" by auto
  from strip_lit_SomeD(2) [OF s] s show ?thesis by simp
qed

lemma starts_ci_overlap:
  assumes "starts_ci w (b @ rest)"
  shows "overlap w b"
proof -
  from assms have l: "length w \<le> length b + length rest"
    and m: "map upc (take (length w) (b @ rest)) = map upc w"
    by (simp_all add: starts_ci_def)
  show ?thesis
  proof (cases "length w \<le> length b")
    case True
    with m show ?thesis by (simp add: overlap_def)
  next
    case False
    then have lb: "length b < length w" by simp
    from m have "take (length b) (map upc (take (length w) (b @ rest))) = take (length b) (map upc w)"
      by simp
    then have "map upc b = map upc (take (length b) w)"
      using lb by (simp add: take_map min_def)
    with lb show ?thesis by (simp add: overlap_def)
  qed
qed

lemma safe_dead:
  assumes "safe w g" "g = a @ b" "b \<noteq> []"
  shows "\<not> starts_ci w (b @ rest)"
  using assms
proof (induction a arbitrary: g)
  case Nil
  then obtain x xs where "b = x # xs" by (cases b) auto
  with Nil have "\<not> overlap w b" by simp
  then show ?case using starts_ci_overlap by blast
next
  case (Cons y a)
  then have "safe w (a @ b)" by simp
  from Cons.IH [OF this refl Cons.prems(3)] show ?case .
qed

lemma safe_append: "safe w (a @ b) \<Longrightarrow> safe w b"
  by (induction a) auto

lemma runs_iff:
  "(p', s', c') \<in> runs ok (p, s, c) \<longleftrightarrow>
     c' = c \<and> (\<exists>u. s = u @ s' \<and> list_all ok u \<and> p' = (if u = [] then p else Some (last u)))"
proof (induction s arbitrary: p)
  case Nil
  then show ?case by auto
next
  case (Cons x xs)
  show ?case
  proof
    assume "(p', s', c') \<in> runs ok (p, x # xs, c)"
    then consider "p' = p" "s' = x # xs" "c' = c"
      | "ok x" "(p', s', c') \<in> runs ok (Some x, xs, c)"
      by (auto split: if_splits)
    then show "c' = c \<and> (\<exists>u. x # xs = u @ s' \<and> list_all ok u \<and>
                 p' = (if u = [] then p else Some (last u)))"
    proof cases
      case 1
      then show ?thesis by (intro conjI exI [of _ "[]"]) auto
    next
      case 2
      with Cons obtain u where u: "c' = c" "xs = u @ s'" "list_all ok u"
        "p' = (if u = [] then Some x else Some (last u))" by blast
      with 2(1) show ?thesis by (intro conjI exI [of _ "x # u"]) auto
    qed
  next
    assume "c' = c \<and> (\<exists>u. x # xs = u @ s' \<and> list_all ok u \<and>
                 p' = (if u = [] then p else Some (last u)))"
    then obtain u where u: "c' = c" "x # xs = u @ s'" "list_all ok u"
      "p' = (if u = [] then p else Some (last u))" by blast
    show "(p', s', c') \<in> runs ok (p, x # xs, c)"
    proof (cases u)
      case Nil
      with u have "s' = x # xs" "p' = p" by auto
      with u(1) show ?thesis by simp
    next
      case (Cons y ys)
      with u have y: "y = x" "xs = ys @ s'" "ok x" "list_all ok ys"
        "p' = (if ys = [] then Some x else Some (last ys))" by auto
      then have "(p', s', c') \<in> runs ok (Some x, xs, c)"
        using Cons.IH [of "Some x"] u(1) by blast
      with y(3) show ?thesis by simp
    qed
  qed
qed

lemma ends_lit:
  "ends ic (lit w) (p, s, c) =
     (case strip_lit ic w p s of None \<Rightarrow> {} | Some (p', s') \<Rightarrow> {(p', s', c)})"
  by (induction w arbitrary: p s) (auto split: list.splits)

lemma ends_seq_append:
  "ends ic (seq (xs @ ys)) st = (\<Union>st' \<in> ends ic (seq xs) st. ends ic (seq ys) st')"
  by (induction xs arbitrary: st) auto

text \<open>
  The lazy star stops at the first state from which the rest of the pattern succeeds.
\<close>

lemma lazy_hit: "k st = Some r \<Longrightarrow> lazy ok k st = Some r"
proof -
  obtain p s c where st: "st = (p, s, c)" by (cases st) auto
  assume "k st = Some r"
  then show ?thesis unfolding st by (cases s) simp_all
qed

lemma lazy_first:
  assumes "list_all ok u"
    and "\<forall>a b p'. u = a @ b \<longrightarrow> b \<noteq> [] \<longrightarrow> k (p', b @ s', c) = None"
  shows "lazy ok k (p, u @ s', c) = lazy ok k (if u = [] then p else Some (last u), s', c)"
  using assms
proof (induction u arbitrary: p)
  case Nil
  then show ?case by simp
next
  case (Cons y u)
  have 1: "k (p, (y # u) @ s', c) = None" using Cons.prems(2) by blast
  have 2: "list_all ok u" "ok y" using Cons.prems(1) by simp_all
  have 3: "\<forall>a b p'. u = a @ b \<longrightarrow> b \<noteq> [] \<longrightarrow> k (p', b @ s', c) = None"
  proof (intro allI impI)
    fix a b p'
    assume "u = a @ b" "b \<noteq> []"
    then have "y # u = (y # a) @ b" "b \<noteq> []" by simp_all
    with Cons.prems(2) show "k (p', b @ s', c) = None" by blast
  qed
  from Cons.IH [OF 2(1) 3, of "Some y"] 1 2(2) show ?case by simp
qed

lemma ends_simple_caps: "simple r \<Longrightarrow> (p', s', c') \<in> ends True r (p, s, c) \<Longrightarrow> c' = c"
proof (induction r arbitrary: p s c p' s' c')
  case (Cls cs)
  then show ?case by (cases s) (auto split: if_splits)
next
  case (Seq a b)
  from Seq.prems obtain p1 s1 c1 where 1: "(p1, s1, c1) \<in> ends True a (p, s, c)"
    "(p', s', c') \<in> ends True b (p1, s1, c1)" by auto
  from Seq.IH(1) [OF _ 1(1)] Seq.IH(2) [OF _ 1(2)] Seq.prems(1) show ?case by simp
next
  case (Many cs)
  then show ?case by (simp add: runs_iff)
next
  case (Lazy cs)
  then show ?case by (simp add: runs_iff)
qed auto

lemma ends_fits:
  "simple r \<Longrightarrow> (\<exists>p'. (p', s', c) \<in> ends True r (p, s, c)) \<longleftrightarrow> fits r s s'"
proof (induction r arbitrary: p s s')
  case Eps
  then show ?case by auto
next
  case (Cls cs)
  then show ?case by (cases s) auto
next
  case (Seq a b)
  then have sa: "simple a" and sb: "simple b" by simp_all
  show ?case
  proof
    assume "\<exists>p'. (p', s', c) \<in> ends True (Seq a b) (p, s, c)"
    then obtain p' p1 s1 c1 where 1: "(p1, s1, c1) \<in> ends True a (p, s, c)"
      "(p', s', c) \<in> ends True b (p1, s1, c1)" by auto
    from ends_simple_caps [OF sa 1(1)] have c1: "c1 = c" .
    from 1 c1 Seq.IH(1) [OF sa, of s1 p s] Seq.IH(2) [OF sb, of s' p1 s1]
    show "fits (Seq a b) s s'" by auto
  next
    assume "fits (Seq a b) s s'"
    then obtain t where t: "fits a s t" "fits b t s'" by auto
    from t(1) Seq.IH(1) [OF sa, of t p s] obtain p1 where 1: "(p1, t, c) \<in> ends True a (p, s, c)"
      by blast
    from t(2) Seq.IH(2) [OF sb, of s' p1 t] obtain p' where "(p', s', c) \<in> ends True b (p1, t, c)"
      by blast
    with 1 show "\<exists>p'. (p', s', c) \<in> ends True (Seq a b) (p, s, c)" by auto
  qed
next
  case (Alt a b)
  then have sa: "simple a" and sb: "simple b" by simp_all
  have "(\<exists>p'. (p', s', c) \<in> ends True (Alt a b) (p, s, c)) \<longleftrightarrow>
        (\<exists>p'. (p', s', c) \<in> ends True a (p, s, c)) \<or> (\<exists>p'. (p', s', c) \<in> ends True b (p, s, c))"
    by auto
  also have "\<dots> \<longleftrightarrow> fits a s s' \<or> fits b s s'"
    unfolding Alt.IH(1) [OF sa] Alt.IH(2) [OF sb] ..
  finally show ?case by simp
next
  case (Many cs)
  then show ?case by (auto simp: runs_iff)
next
  case (Lazy cs)
  then show ?case by (auto simp: runs_iff)
next
  case (Cap n r)
  then show ?case by simp
next
  case Bnd
  then show ?case by simp
qed

lemma fits_lit: "fits (lit w) s s' \<longleftrightarrow> (\<exists>u. s = u @ s' \<and> map upc u = map upc w)"
proof (induction w arbitrary: s)
  case Nil
  then show ?case by auto
next
  case (Cons a w)
  show ?case
  proof
    assume "fits (lit (a # w)) s s'"
    then obtain x t where "s = x # t" "upc a = upc x" "fits (lit w) t s'" by auto
    with Cons obtain u where "t = u @ s'" "map upc u = map upc w" by blast
    with \<open>s = x # t\<close> \<open>upc a = upc x\<close> have "s = (x # u) @ s' \<and> map upc (x # u) = map upc (a # w)"
      by simp
    then show "\<exists>u. s = u @ s' \<and> map upc u = map upc (a # w)" by blast
  next
    assume "\<exists>u. s = u @ s' \<and> map upc u = map upc (a # w)"
    then obtain u where u: "s = u @ s'" "map upc u = map upc (a # w)" by blast
    then obtain x u' where x: "u = x # u'" "upc x = upc a" "map upc u' = map upc w"
      by (cases u) auto
    with Cons [of "u' @ s'"] have "fits (lit w) (u' @ s') s'" by blast
    with x u show "fits (lit (a # w)) s s'" by auto
  qed
qed

lemma simple_lit: "simple (lit w)"
  by (induction w) auto

lemma simple_seq: "simple (seq rs) \<longleftrightarrow> list_all simple rs"
  by (induction rs) auto

lemma fits_seq_Cons: "fits (seq (r # rs)) s s' \<longleftrightarrow> (\<exists>t. fits r s t \<and> fits (seq rs) t s')"
  by simp

lemma fits_seq_Nil: "fits (seq []) s s' \<longleftrightarrow> s = s'"
  by simp

lemma tail_close:
  assumes "safe ''</mxCell>'' b"
  shows "\<exists>p''. rmatch True (seq [Lazy CAny, lit ''</mxCell>'']) Some (p, b @ ''</mxCell>'' @ rest, c)
               = Some (p'', rest, c)"
proof -
  define k where "k = (\<lambda>st'. rmatch True (Seq (lit ''</mxCell>'') Eps) Some st')"
  have k: "k (p', s, c') = (case strip_lit True ''</mxCell>'' p' s of
              None \<Rightarrow> None | Some (p'', s') \<Rightarrow> Some (p'', s', c'))" for p' s c'
    unfolding k_def by (simp only: rmatch.simps rmatch_lit)
  have dead: "\<forall>a b' p'. b = a @ b' \<longrightarrow> b' \<noteq> [] \<longrightarrow> k (p', b' @ ''</mxCell>'' @ rest, c) = None"
  proof (intro allI impI)
    fix a b' p'
    assume "b = a @ b'" "b' \<noteq> []"
    from safe_dead [OF assms this] have "\<not> starts_ci ''</mxCell>'' (b' @ ''</mxCell>'' @ rest)" .
    then have "strip_lit True ''</mxCell>'' p' (b' @ ''</mxCell>'' @ rest) = None"
      by (rule strip_lit_None_iff [THEN iffD2])
    then show "k (p', b' @ ''</mxCell>'' @ rest, c) = None"
      unfolding k by (simp only: option.case)
  qed
  have all: "list_all (cmatch True CAny) b" by (simp add: list_all_iff)
  let ?pb = "if b = [] then p else Some (last b)"
  have "starts_ci ''</mxCell>'' (''</mxCell>'' @ rest)" by (simp add: starts_ci_def)
  from strip_lit_starts [OF this, of ?pb] obtain p'' where
    "strip_lit True ''</mxCell>'' ?pb (''</mxCell>'' @ rest) = Some (p'', rest)" by auto
  then have "k (?pb, ''</mxCell>'' @ rest, c) = Some (p'', rest, c)"
    unfolding k by (simp only: option.case prod.case)
  then have "lazy (cmatch True CAny) k (?pb, ''</mxCell>'' @ rest, c) = Some (p'', rest, c)"
    by (rule lazy_hit)
  with lazy_first [OF all dead, of p]
  have "lazy (cmatch True CAny) k (p, b @ ''</mxCell>'' @ rest, c) = Some (p'', rest, c)" by simp
  moreover have "rmatch True (seq [Lazy CAny, lit ''</mxCell>'']) Some = lazy (cmatch True CAny) k"
    unfolding k_def by (rule ext) (simp only: seq.simps rmatch.simps)
  ultimately show ?thesis by auto
qed

lemma exec_tag:
  assumes simple: "simple (seq H)"
    and fit: "fits (seq H) s (b @ ''</mxCell>'' @ rest)"
    and uniq: "\<forall>s'. fits (seq H) s s' \<longrightarrow> s' = b @ ''</mxCell>'' @ rest"
    and safe: "safe ''</mxCell>'' b"
  shows "exec True (seq (H @ [Lazy CAny, lit ''</mxCell>''])) p s =
           Some (take (length s - length rest) s, [])"
proof -
  let ?K = "rmatch True (seq [Lazy CAny, lit ''</mxCell>'']) Some"
  have K: "\<exists>p''. ?K (p', b @ ''</mxCell>'' @ rest, []) = Some (p'', rest, [])" for p'
    by (rule tail_close [OF safe])
  from fit ends_fits [OF simple, of "b @ ''</mxCell>'' @ rest" "[]" p s]
  obtain p1 where p1: "(p1, b @ ''</mxCell>'' @ rest, []) \<in> ends True (seq H) (p, s, [])" by blast
  have "rmatch True (seq H) ?K (p, s, []) \<noteq> None"
  proof
    assume "rmatch True (seq H) ?K (p, s, []) = None"
    then have "\<forall>st' \<in> ends True (seq H) (p, s, []). ?K st' = None"
      by (rule rmatch_None [THEN iffD1])
    with K [of p1] p1 show False by force
  qed
  then obtain res where res: "rmatch True (seq H) ?K (p, s, []) = Some res" by auto
  from rmatch_Some [OF res] obtain p2 s2 c2 where 2: "(p2, s2, c2) \<in> ends True (seq H) (p, s, [])"
    "?K (p2, s2, c2) = Some res" by auto
  from ends_simple_caps [OF simple 2(1)] have c2: "c2 = []" .
  from 2(1) c2 ends_fits [OF simple, of s2 "[]" p s] have "fits (seq H) s s2" by blast
  with uniq have s2: "s2 = b @ ''</mxCell>'' @ rest" by blast
  from K [of p2] 2(2) c2 s2 obtain p3 where "res = (p3, rest, [])" by auto
  with res show ?thesis by (simp add: exec_def rmatch_seq_append)
qed

lemma exec_tag_none:
  assumes simple: "simple (seq H)" and none: "\<forall>s'. \<not> fits (seq H) s s'"
  shows "exec True (seq (H @ T)) p s = None"
proof -
  have "rmatch True (seq H) (rmatch True (seq T) Some) (p, s, []) = None"
  proof (rule rmatch_None [THEN iffD2], rule ballI)
    fix st'
    assume m: "st' \<in> ends True (seq H) (p, s, [])"
    obtain p' s' c' where st': "st' = (p', s', c')" by (cases st') auto
    from ends_simple_caps [OF simple m [unfolded st']] have "c' = []" .
    with m st' ends_fits [OF simple, of s' "[]" p s] none
    show "rmatch True (seq T) Some st' = None" by blast
  qed
  then show ?thesis by (simp add: exec_def rmatch_seq_append)
qed

lemma exec_lit_first:
  assumes "\<not> starts_ci w s"
  shows "exec True (seq (lit w # more)) p s = None"
proof -
  from assms have "strip_lit True w p s = None" by (simp add: strip_lit_None_iff)
  then show ?thesis by (simp add: exec_def rmatch_lit)
qed

lemma upc_gt: "upc x = CHR ''>'' \<longleftrightarrow> x = CHR ''>''"
  by (rule upc_eq_other) (simp_all add: uppers_def lowers_def)

lemma upc_lt: "upc x = CHR ''<'' \<longleftrightarrow> x = CHR ''<''"
  by (rule upc_eq_other) (simp_all add: uppers_def lowers_def)

lemma upc_dq: "upc x = CHR 0x22 \<longleftrightarrow> x = CHR 0x22"
  by (rule upc_eq_other) (simp_all add: uppers_def lowers_def)

lemma cmatch_not_gt: "cmatch True (CNot ''>'') x \<longleftrightarrow> x \<noteq> CHR ''>''"
  using upc_gt [of x] upc_gt [of "CHR ''>''"] by auto

lemma cmatch_not_dq: "cmatch True (CNot dq) x \<longleftrightarrow> x \<noteq> CHR 0x22"
  using upc_dq [of x] upc_dq [of "CHR 0x22"] by (auto simp: dq_def)

lemma run_not_gt: "list_all (cmatch True (CNot ''>'')) u \<longleftrightarrow> CHR ''>'' \<notin> set u"
  by (induction u) (auto simp: cmatch_not_gt simp del: cmatch.simps)

lemma run_not_dq: "list_all (cmatch True (CNot dq)) u \<longleftrightarrow> CHR 0x22 \<notin> set u"
  by (induction u) (auto simp: cmatch_not_dq simp del: cmatch.simps)

lemma split_unique:
  assumes "u @ x # s = v @ x # t" "x \<notin> set u" "x \<notin> set v"
  shows "u = v \<and> s = t"
  using assms
proof (induction u arbitrary: v)
  case Nil
  then show ?case by (cases v) auto
next
  case (Cons a u)
  then show ?case by (cases v) auto
qed

lemma ci_no_char:
  assumes "map upc e = map upc w" "x \<notin> set (map upc w)" "upc x = x"
  shows "x \<notin> set e"
proof
  assume "x \<in> set e"
  then have "upc x \<in> set (map upc e)" by simp
  with assms show False by simp
qed

lemma includes_ci_iff:
  "includes_str (toUpperCase h) (toUpperCase w) \<longleftrightarrow>
     (\<exists>a e b. h = a @ e @ b \<and> map upc e = map upc w)"
proof
  assume "includes_str (toUpperCase h) (toUpperCase w)"
  then have "\<exists>A B. map upc h = A @ map upc w @ B"
    by (simp only: includes_str_iff toUpperCase_def)
  then obtain A B where "map upc h = A @ map upc w @ B" by blast
  then obtain a eb where 1: "h = a @ eb" "map upc a = A" "map upc eb = map upc w @ B"
    using map_eq_append_conv [of upc h A "map upc w @ B"] by auto
  from 1(3) obtain e b where 2: "eb = e @ b" "map upc e = map upc w" "map upc b = B"
    using map_eq_append_conv [of upc eb "map upc w" B] by auto
  with 1 show "\<exists>a e b. h = a @ e @ b \<and> map upc e = map upc w" by blast
next
  assume "\<exists>a e b. h = a @ e @ b \<and> map upc e = map upc w"
  then obtain a e b where "h = a @ e @ b" "map upc e = map upc w" by blast
  then have "toUpperCase h = toUpperCase a @ toUpperCase w @ toUpperCase b"
    by (simp add: toUpperCase_def)
  then show "includes_str (toUpperCase h) (toUpperCase w)"
    unfolding includes_str_iff by blast
qed

lemma fits_five:
  "fits (seq [lit a, Many cs, lit b, Many ds, lit e]) s s' \<longleftrightarrow>
     (\<exists>u1 u2 u3 u4 u5. s = u1 @ u2 @ u3 @ u4 @ u5 @ s' \<and> map upc u1 = map upc a \<and>
        list_all (cmatch True cs) u2 \<and> map upc u3 = map upc b \<and>
        list_all (cmatch True ds) u4 \<and> map upc u5 = map upc e)"
  (is "?L \<longleftrightarrow> ?R")
proof
  assume ?L
  then have "\<exists>t1 t2 t3 t4. fits (lit a) s t1 \<and> fits (Many cs) t1 t2 \<and> fits (lit b) t2 t3 \<and>
    fits (Many ds) t3 t4 \<and> fits (lit e) t4 s'"
    by (simp only: seq.simps fits.simps(1) fits.simps(3)) blast
  then obtain t1 t2 t3 t4 where t: "fits (lit a) s t1" "fits (Many cs) t1 t2" "fits (lit b) t2 t3"
    "fits (Many ds) t3 t4" "fits (lit e) t4 s'" by blast
  from t(1) obtain u1 where 1: "s = u1 @ t1" "map upc u1 = map upc a" unfolding fits_lit by blast
  from t(2) obtain u2 where 2: "t1 = u2 @ t2" "list_all (cmatch True cs) u2" by auto
  from t(3) obtain u3 where 3: "t2 = u3 @ t3" "map upc u3 = map upc b" unfolding fits_lit by blast
  from t(4) obtain u4 where 4: "t3 = u4 @ t4" "list_all (cmatch True ds) u4" by auto
  from t(5) obtain u5 where 5: "t4 = u5 @ s'" "map upc u5 = map upc e" unfolding fits_lit by blast
  from 1 2 3 4 5 have "s = u1 @ u2 @ u3 @ u4 @ u5 @ s'" by simp
  with 1 2 3 4 5 show ?R by blast
next
  assume ?R
  then obtain u1 u2 u3 u4 u5 where u: "s = u1 @ u2 @ u3 @ u4 @ u5 @ s'" "map upc u1 = map upc a"
    "list_all (cmatch True cs) u2" "map upc u3 = map upc b"
    "list_all (cmatch True ds) u4" "map upc u5 = map upc e" by blast
  have "fits (lit e) (u5 @ s') s'" unfolding fits_lit using u(6) by blast
  moreover have "fits (Many ds) (u4 @ u5 @ s') (u5 @ s')" using u(5) by simp
  moreover have "fits (lit b) (u3 @ u4 @ u5 @ s') (u4 @ u5 @ s')" unfolding fits_lit using u(4) by blast
  moreover have "fits (Many cs) (u2 @ u3 @ u4 @ u5 @ s') (u3 @ u4 @ u5 @ s')" using u(3) by simp
  moreover have "fits (lit a) s (u2 @ u3 @ u4 @ u5 @ s')" unfolding fits_lit using u(1,2) by blast
  ultimately show ?L
    by (simp only: seq.simps fits.simps(1) fits.simps(3)) blast
qed

lemma same_length_prefix:
  assumes "u @ t = w @ t'" "length u = length w"
  shows "u = w \<and> t = t'"
  using assms by simp

lemma fits_lit_head:
  assumes h: "CHR ''>'' \<notin> set h" and m: "CHR ''>'' \<notin> set (map upc m)"
  shows "fits (seq [lit ''<mxCell'', Many (CNot ''>''), lit m, Many (CNot ''>''), lit ''>''])
           (''<mxCell'' @ h @ ''>'' @ r) s' \<longleftrightarrow>
         s' = r \<and> includes_str (toUpperCase h) (toUpperCase m)"
  (is "?L \<longleftrightarrow> ?R")
proof
  assume ?L
  then obtain u1 u2 u3 u4 u5 where u: "''<mxCell'' @ h @ ''>'' @ r = u1 @ u2 @ u3 @ u4 @ u5 @ s'"
    "map upc u1 = map upc ''<mxCell''" "list_all (cmatch True (CNot ''>'')) u2"
    "map upc u3 = map upc m" "list_all (cmatch True (CNot ''>'')) u4"
    "map upc u5 = map upc ''>''"
    unfolding fits_five by blast
  from u(2) have "length u1 = length ''<mxCell''" by (metis length_map)
  with u(1) have 1: "h @ ''>'' @ r = u2 @ u3 @ u4 @ u5 @ s'"
    using same_length_prefix [of u1 "u2 @ u3 @ u4 @ u5 @ s'" "''<mxCell''" "h @ ''>'' @ r"] by simp
  from u(6) obtain x where x: "u5 = [x]" "upc x = upc (CHR ''>'')" by (cases u5) auto
  then have "x = CHR ''>''" using upc_gt [of x] upc_gt [of "CHR ''>''"] by simp
  with x have u5: "u5 = ''>''" by simp
  have g3: "CHR ''>'' \<notin> set u3"
    by (rule ci_no_char [OF u(4) m]) (simp add: upc_gt)
  have g: "CHR ''>'' \<notin> set (u2 @ u3 @ u4)"
    using u(3,5) g3 by (simp add: run_not_gt del: cmatch.simps)
  from 1 u5 have "h @ CHR ''>'' # r = (u2 @ u3 @ u4) @ CHR ''>'' # s'" by simp
  from split_unique [OF this h g] have hs: "h = u2 @ u3 @ u4" "r = s'" by simp_all
  from hs(1) u(4) have "includes_str (toUpperCase h) (toUpperCase m)"
    unfolding includes_ci_iff by blast
  with hs(2) show ?R by simp
next
  assume ?R
  then obtain a e b where aeb: "h = a @ e @ b" "map upc e = map upc m" and s': "s' = r"
    unfolding includes_ci_iff by blast
  from h aeb have ga: "list_all (cmatch True (CNot ''>'')) a" "list_all (cmatch True (CNot ''>'')) b"
    by (simp_all add: run_not_gt del: cmatch.simps)
  have "''<mxCell'' @ h @ ''>'' @ r = ''<mxCell'' @ a @ e @ b @ ''>'' @ s'"
    using aeb s' by simp
  with ga aeb(2) show ?L unfolding fits_five by blast
qed

lemma overlap_append:
  assumes "overlap w (a @ b)" "a \<noteq> []"
  shows "overlap w a"
proof (cases "length w \<le> length a")
  case True
  with assms(1) show ?thesis by (simp add: overlap_def)
next
  case False
  then have la: "length a < length w" by simp
  from assms(1) have "take (length a) (map upc (take (length w) (a @ b))) =
                      take (length a) (map upc (take (length (a @ b)) w))"
    by (simp add: overlap_def)
  then have "map upc a = map upc (take (length a) w)"
    using la by (simp add: take_map min_def)
  with la show ?thesis by (simp add: overlap_def)
qed

lemma safe_appendI: "safe w a \<Longrightarrow> safe w b \<Longrightarrow> safe w (a @ b)"
proof (induction a)
  case Nil
  then show ?case by simp
next
  case (Cons x a)
  have "\<not> overlap w ((x # a) @ b)"
    using overlap_append [of w "x # a" b] Cons.prems(1) by auto
  with Cons show ?case by simp
qed

lemma safe_no_first:
  assumes "\<forall>x \<in> set s. upc x \<noteq> upc c"
  shows "safe (c # w) s"
  using assms by (induction s) (auto simp: overlap_def)

lemma safe_open_no_lt: "CHR ''<'' \<notin> set s \<Longrightarrow> safe ''<mxCell'' s"
proof (rule safe_no_first)
  assume "CHR ''<'' \<notin> set s"
  then show "\<forall>x \<in> set s. upc x \<noteq> upc CHR ''<''"
    using upc_lt by (metis)
qed

lemma safe_open_consts:
  "safe ''<mxCell'' ''mxCell''" "safe ''<mxCell'' ''>''" "safe ''<mxCell'' ''</mxCell>''"
  by (simp_all add: overlap_def upc_def lowers_def uppers_def)

lemma edgeRegex_split:
  "edgeRegex = seq ([lit ''<mxCell'', Many (CNot ''>''), lit (''edge='' @ dq @ ''1'' @ dq),
                     Many (CNot ''>''), lit ''>''] @ [Lazy CAny, lit ''</mxCell>''])"
  by (simp add: edgeRegex_def)

lemma edgeRegex_first:
  "edgeRegex = seq (lit ''<mxCell'' # [Many (CNot ''>''), lit (''edge='' @ dq @ ''1'' @ dq),
                     Many (CNot ''>''), lit ''>'', Lazy CAny, lit ''</mxCell>''])"
  by (simp add: edgeRegex_def)

lemma edge_head_simple:
  "simple (seq [lit ''<mxCell'', Many (CNot ''>''), lit (''edge='' @ dq @ ''1'' @ dq),
                Many (CNot ''>''), lit ''>''])"
  by (simp only: simple_seq list.pred_inject simple_lit simple.simps)

lemma edge_text_no_gt: "CHR ''>'' \<notin> set (map upc (''edge='' @ dq @ ''1'' @ dq))"
  by (simp add: upc_def lowers_def uppers_def dq_def)

lemma edge_exec_dead: "\<not> starts_ci ''<mxCell'' s \<Longrightarrow> exec True edgeRegex p s = None"
  unfolding edgeRegex_first by (rule exec_lit_first)

lemma edge_exec_head:
  assumes "CHR ''>'' \<notin> set h" "\<not> edge_mark h"
  shows "exec True edgeRegex p (''<mxCell'' @ h @ ''>'' @ r) = None"
  unfolding edgeRegex_split
proof (rule exec_tag_none [OF edge_head_simple], rule allI)
  fix s'
  from assms(2) show "\<not> fits (seq [lit ''<mxCell'', Many (CNot ''>''),
      lit (''edge='' @ dq @ ''1'' @ dq), Many (CNot ''>''), lit ''>''])
      (''<mxCell'' @ h @ ''>'' @ r) s'"
    unfolding fits_lit_head [OF assms(1) edge_text_no_gt] edge_mark_def by simp
qed

lemma edge_exec_cell:
  assumes "CHR ''>'' \<notin> set h" "edge_mark h" "safe ''</mxCell>'' b"
  shows "exec True edgeRegex p (render_item (Cell h b) @ rest) = Some (render_item (Cell h b), [])"
proof -
  let ?H = "[lit ''<mxCell'', Many (CNot ''>''), lit (''edge='' @ dq @ ''1'' @ dq),
             Many (CNot ''>''), lit ''>'']"
  let ?s = "''<mxCell'' @ h @ ''>'' @ (b @ ''</mxCell>'' @ rest)"
  have f: "fits (seq ?H) ?s s' \<longleftrightarrow> s' = b @ ''</mxCell>'' @ rest" for s'
    unfolding fits_lit_head [OF assms(1) edge_text_no_gt] using assms(2)
    by (simp add: edge_mark_def)
  have 1: "exec True (seq (?H @ [Lazy CAny, lit ''</mxCell>''])) p ?s =
          Some (take (length ?s - length rest) ?s, [])"
    by (rule exec_tag [OF edge_head_simple _ _ assms(3)]) (simp_all only: f simp_thms)
  define t where "t = render_item (Cell h b)"
  have 2: "?s = t @ rest" by (simp add: t_def)
  have "take (length (t @ rest) - length rest) (t @ rest) = t" by simp
  with 1 show ?thesis unfolding edgeRegex_split 2 t_def [symmetric] by simp
qed

lemma gscan_dead:
  assumes "\<forall>a b p'. u = a @ b \<longrightarrow> b \<noteq> [] \<longrightarrow> exec ic r p' (b @ rest) = None"
  shows "gscan ic r 0 p (u @ rest) =
           map Txt u @ gscan ic r 0 (if u = [] then p else Some (last u)) rest"
  using assms
proof (induction u arbitrary: p)
  case Nil
  then show ?case by simp
next
  case (Cons x u)
  have 1: "exec ic r p ((x # u) @ rest) = None" using Cons.prems by blast
  have 2: "\<forall>a b p'. u = a @ b \<longrightarrow> b \<noteq> [] \<longrightarrow> exec ic r p' (b @ rest) = None"
  proof (intro allI impI)
    fix a b p'
    assume "u = a @ b" "b \<noteq> []"
    then have "x # u = (x # a) @ b" "b \<noteq> []" by simp_all
    with Cons.prems show "exec ic r p' (b @ rest) = None" by blast
  qed
  from Cons.IH [OF 2, of "Some x"] 1 show ?case by simp
qed

lemma edge_gscan_safe:
  assumes "safe ''<mxCell'' u"
  shows "gscan True edgeRegex 0 p (u @ rest) =
           map Txt u @ gscan True edgeRegex 0 (if u = [] then p else Some (last u)) rest"
proof (rule gscan_dead, intro allI impI)
  fix a b p'
  assume "u = a @ b" "b \<noteq> []"
  from safe_dead [OF assms this] show "exec True edgeRegex p' (b @ rest) = None"
    by (rule edge_exec_dead)
qed

lemma safe_cell_tail:
  assumes "no_angle h" "safe ''<mxCell'' b"
  shows "safe ''<mxCell'' (''mxCell'' @ h @ ''>'' @ b @ ''</mxCell>'')"
proof -
  from assms(1) have h: "safe ''<mxCell'' h" by (simp add: no_angle_def safe_open_no_lt)
  show ?thesis by (intro safe_appendI safe_open_consts h assms(2))
qed

lemma safe_stub_tail:
  assumes "no_angle h"
  shows "safe ''<mxCell'' (''mxCell'' @ h @ ''>'')"
proof -
  from assms(1) have h: "safe ''<mxCell'' h" by (simp add: no_angle_def safe_open_no_lt)
  show ?thesis by (intro safe_appendI safe_open_consts h)
qed

lemma edge_gscan_item:
  assumes "wf_item it"
  shows "\<exists>p'. gscan True edgeRegex 0 p (render_item it @ rest) =
               edge_pieces it @ gscan True edgeRegex 0 p' rest"
proof (cases it)
  case (Gap g)
  with assms edge_gscan_safe [of g p rest] show ?thesis by (auto simp: edge_pieces_def)
next
  case (Stub h)
  with assms have h: "no_angle h" "\<not> edge_mark h" by simp_all
  let ?t = "''mxCell'' @ h @ ''>''"
  have e: "exec True edgeRegex p (CHR ''<'' # ?t @ rest) = None"
    using edge_exec_head [of h p rest] h by (simp add: no_angle_def)
  have "gscan True edgeRegex 0 (Some CHR ''<'') (?t @ rest) =
          map Txt ?t @ gscan True edgeRegex 0 (Some (last ?t)) rest"
    using edge_gscan_safe [OF safe_stub_tail [OF h(1)], of "Some CHR ''<''" rest]
    by simp
  with e Stub show ?thesis by (auto simp: edge_pieces_def)
next
  case (Cell h b)
  with assms have h: "no_angle h" "safe ''<mxCell'' b" "safe ''</mxCell>'' b" by simp_all
  let ?t = "''mxCell'' @ h @ ''>'' @ b @ ''</mxCell>''"
  have t: "render_item it = CHR ''<'' # ?t" using Cell by simp
  show ?thesis
  proof (cases "edge_mark h")
    case True
    have "exec True edgeRegex p (render_item (Cell h b) @ rest) = Some (render_item (Cell h b), [])"
      using edge_exec_cell [OF _ True h(3)] h(1) by (simp add: no_angle_def)
    then have e: "exec True edgeRegex p (CHR ''<'' # ?t @ rest) = Some (CHR ''<'' # ?t, [])"
      by simp
    have "?t \<noteq> []" by simp
    from gscan_skip [OF this, of True edgeRegex "Some CHR ''<''" rest]
    have "gscan True edgeRegex (length ?t) (Some CHR ''<'') (?t @ rest) =
            gscan True edgeRegex 0 (Some (last ?t)) rest" .
    with e have "gscan True edgeRegex 0 p ((CHR ''<'' # ?t) @ rest) =
                   Hit (CHR ''<'' # ?t) [] # gscan True edgeRegex 0 (Some (last ?t)) rest"
      by simp
    with True Cell t show ?thesis by (auto simp: edge_pieces_def)
  next
    case False
    have e: "exec True edgeRegex p (CHR ''<'' # ?t @ rest) = None"
      using edge_exec_head [of h p "b @ ''</mxCell>'' @ rest"] h(1) False
      by (simp add: no_angle_def)
    have "gscan True edgeRegex 0 (Some CHR ''<'') (?t @ rest) =
            map Txt ?t @ gscan True edgeRegex 0 (Some (last ?t)) rest"
      using edge_gscan_safe [OF safe_cell_tail [OF h(1,2)], of "Some CHR ''<''" rest]
      by simp
    with e have "gscan True edgeRegex 0 p ((CHR ''<'' # ?t) @ rest) =
                   map Txt (CHR ''<'' # ?t) @ gscan True edgeRegex 0 (Some (last ?t)) rest"
      by simp
    with False Cell t show ?thesis by (auto simp: edge_pieces_def)
  qed
qed

lemma edge_gscan_render:
  assumes "list_all wf_item its"
  shows "gscan True edgeRegex 0 p (render its) = concat (map edge_pieces its)"
  using assms
proof (induction its arbitrary: p)
  case Nil
  have "\<not> starts_ci ''<mxCell'' []" by (simp add: starts_ci_def)
  from edge_exec_dead [OF this] show ?case by (simp add: render_def)
next
  case (Cons it its)
  then have wf: "wf_item it" "list_all wf_item its" by simp_all
  from edge_gscan_item [OF wf(1), of p "render its"] obtain p' where
    "gscan True edgeRegex 0 p (render_item it @ render its) =
       edge_pieces it @ gscan True edgeRegex 0 p' (render its)" by blast
  with Cons.IH [OF wf(2), of p'] show ?case by (simp add: render_def)
qed

lemma hits_append: "hits (a @ b) = hits a @ hits b"
  by (induction a rule: hits.induct) auto

lemma subst_append: "subst t (a @ b) = subst t a @ subst t b"
  by (induction t a rule: subst.induct) auto

lemma edge_hits: "hits (concat (map edge_pieces its)) = map render_item (filter is_edge its)"
  by (induction its) (auto simp: hits_append hits_Txt edge_pieces_def)

lemma edge_subst:
  "subst [] (concat (map edge_pieces its)) = render (filter (\<lambda>it. \<not> is_edge it) its)"
  by (induction its) (auto simp: subst_append subst_Txt edge_pieces_def render_def)

text \<open>
  Claim C8, amended. On a well-formed document (cell elements with opening and closing
  tag, cell tags without content that are no edges, and other markup; attribute text
  without angle bracket; no cell tag starting inside other markup or inside the content
  of a cell; no closing cell tag inside the content of a cell), DisconnectEdges with at
  most one component name deletes exactly the edge elements and reports their number; it
  fails, with the document unchanged, when there is none. The document that the first
  call returns has no edge element, and a second call on it reports failure (nothing
  removed) and returns it unchanged.
\<close>

theorem disconnect_all_twice:
  assumes "list_all wf_item its" and "\<not> (truthy component1 \<and> truthy component2)"
  shows "removeConnections (render its) component1 component2 =
           (if filter is_edge its = [] then (False, render its, ''No connections found to remove'')
            else (True, render (filter (\<lambda>it. \<not> is_edge it) its),
                  ''Removed '' @ show_nat (length (filter is_edge its)) @
                  '' arrow(s)/connection(s) from the diagram'')) \<and>
         removeConnections (render (filter (\<lambda>it. \<not> is_edge it) its)) component1 component2 =
           (False, render (filter (\<lambda>it. \<not> is_edge it) its), ''No connections found to remove'')"
proof -
  have first: "removeConnections (render js) component1 component2 =
           (if filter is_edge js = [] then (False, render js, ''No connections found to remove'')
            else (True, render (filter (\<lambda>it. \<not> is_edge it) js),
                  ''Removed '' @ show_nat (length (filter is_edge js)) @
                  '' arrow(s)/connection(s) from the diagram''))"
    if wf: "list_all wf_item js" for js
  proof -
    have m: "match_all True edgeRegex (render js) = map render_item (filter is_edge js)"
      by (simp add: match_all_def edge_gscan_render [OF wf] edge_hits)
    have r: "replace_all True edgeRegex [] (render js) = render (filter (\<lambda>it. \<not> is_edge it) js)"
      by (simp add: replace_all_def edge_gscan_render [OF wf] edge_subst)
    from assms(2) have c: "(truthy component1 \<and> truthy component2) = False" by simp
    show ?thesis unfolding removeConnections_def c by (simp add: m r Let_def)
  qed
  let ?js = "filter (\<lambda>it. \<not> is_edge it) its"
  have "list_all wf_item ?js" using assms(1) by (simp add: list_all_iff)
  from first [OF this] have "removeConnections (render ?js) component1 component2 =
      (False, render ?js, ''No connections found to remove'')" by simp
  with first [OF assms(1)] show ?thesis by simp
qed

theorem disconnect_all_twice_witness:
  "list_all wf_item sample_items \<and> \<not> (truthy None \<and> truthy None) \<and>
   removeConnections (render sample_items) None None =
     (True, render (filter (\<lambda>it. \<not> is_edge it) sample_items),
      ''Removed 1 arrow(s)/connection(s) from the diagram'') \<and>
   removeConnections (render (filter (\<lambda>it. \<not> is_edge it) sample_items)) None None =
     (False, render (filter (\<lambda>it. \<not> is_edge it) sample_items), ''No connections found to remove'')"
proof -
  have h1: "list_all wf_item sample_items" by code_simp
  have h2: "\<not> (truthy None \<and> truthy None)" by (simp add: truthy_def)
  have n: "filter is_edge sample_items \<noteq> []" "show_nat (length (filter is_edge sample_items)) = ''1''"
    by code_simp+
  from disconnect_all_twice [OF h1 h2] h1 h2 n show ?thesis by simp
qed

text \<open>
  Without well-formedness the claim fails. Deleting an edge element can join the text
  around it into a new one, which the second call then removes; and an edge written as
  a cell tag without content, with no closing cell tag behind it, is not deleted: the
  call fails and the edge stays.
\<close>

theorem disconnect_splice_counterexample:
  "removeConnections spliced_doc None None =
     (True, edge_cell, ''Removed 1 arrow(s)/connection(s) from the diagram'') \<and>
   removeConnections edge_cell None None =
     (True, [], ''Removed 1 arrow(s)/connection(s) from the diagram'') \<and>
   removeConnections hanging_edge_doc None None =
     (False, hanging_edge_doc, ''No connections found to remove'')"
  by code_simp

section \<open>Removing a component from a well-formed document\<close>

lemma tag_regex_split: "tag_regex H = seq ((lit ''<mxCell'' # H) @ [Lazy CAny, lit ''</mxCell>''])"
  by (simp only: tag_regex_def)

lemma tag_regex_first: "tag_regex H = seq (lit ''<mxCell'' # (H @ [Lazy CAny, lit ''</mxCell>'']))"
  by (simp only: tag_regex_def append_Cons)

lemma tagged_simple: "tagged H W P \<Longrightarrow> simple (seq (lit ''<mxCell'' # H))"
  by (simp only: tagged_def seq.simps simple.simps simple_lit simp_thms)

lemma tag_exec_dead: "\<not> starts_ci ''<mxCell'' s \<Longrightarrow> exec True (tag_regex H) p s = None"
  unfolding tag_regex_first by (rule exec_lit_first)

lemma tag_exec_head:
  assumes t: "tagged H W P" and h: "W h" "\<not> P h"
  shows "exec True (tag_regex H) p (''<mxCell'' @ h @ ''>'' @ r) = None"
  unfolding tag_regex_split
proof (rule exec_tag_none [OF tagged_simple [OF t]], rule allI)
  fix s'
  from t h show "\<not> fits (seq (lit ''<mxCell'' # H)) (''<mxCell'' @ h @ ''>'' @ r) s'"
    unfolding tagged_def by blast
qed

lemma tag_exec_cell:
  assumes t: "tagged H W P" and h: "W h" "P h" and b: "safe ''</mxCell>'' b"
  shows "exec True (tag_regex H) p (render_item (Cell h b) @ rest) = Some (render_item (Cell h b), [])"
proof -
  let ?s = "''<mxCell'' @ h @ ''>'' @ (b @ ''</mxCell>'' @ rest)"
  have f: "fits (seq (lit ''<mxCell'' # H)) ?s s' \<longleftrightarrow> s' = b @ ''</mxCell>'' @ rest" for s'
    using t h unfolding tagged_def by blast
  have 1: "exec True (seq ((lit ''<mxCell'' # H) @ [Lazy CAny, lit ''</mxCell>''])) p ?s =
          Some (take (length ?s - length rest) ?s, [])"
    by (rule exec_tag [OF tagged_simple [OF t] _ _ b]) (simp_all only: f simp_thms)
  define c where "c = render_item (Cell h b)"
  have 2: "?s = c @ rest" by (simp add: c_def)
  have "take (length (c @ rest) - length rest) (c @ rest) = c" by simp
  with 1 show ?thesis unfolding tag_regex_split 2 c_def [symmetric] by simp
qed

lemma tag_gscan_safe:
  assumes "safe ''<mxCell'' u"
  shows "gscan True (tag_regex H) 0 p (u @ rest) =
           map Txt u @ gscan True (tag_regex H) 0 (if u = [] then p else Some (last u)) rest"
proof (rule gscan_dead, intro allI impI)
  fix a b p'
  assume "u = a @ b" "b \<noteq> []"
  from safe_dead [OF assms this] show "exec True (tag_regex H) p' (b @ rest) = None"
    by (rule tag_exec_dead)
qed

lemma tag_gscan_item:
  assumes t: "tagged H W P" and wf: "gwf W P it"
  shows "\<exists>p'. gscan True (tag_regex H) 0 p (render_item it @ rest) =
               pieces P it @ gscan True (tag_regex H) 0 p' rest"
proof (cases it)
  case (Gap g)
  with wf tag_gscan_safe [of g H p rest] show ?thesis by (auto simp: pieces_def)
next
  case (Stub h)
  with wf have h: "W h" "\<not> P h" by simp_all
  with t have na: "no_angle h" unfolding tagged_def by blast
  let ?t = "''mxCell'' @ h @ ''>''"
  have e: "exec True (tag_regex H) p (CHR ''<'' # ?t @ rest) = None"
    using tag_exec_head [OF t h, of p rest] by simp
  have "gscan True (tag_regex H) 0 (Some CHR ''<'') (?t @ rest) =
          map Txt ?t @ gscan True (tag_regex H) 0 (Some (last ?t)) rest"
    using tag_gscan_safe [OF safe_stub_tail [OF na], of H "Some CHR ''<''" rest]
    by simp
  with e Stub show ?thesis by (auto simp: pieces_def)
next
  case (Cell h b)
  with wf have h: "W h" "safe ''<mxCell'' b" "safe ''</mxCell>'' b" by simp_all
  with t have na: "no_angle h" unfolding tagged_def by blast
  let ?t = "''mxCell'' @ h @ ''>'' @ b @ ''</mxCell>''"
  have tx: "render_item it = CHR ''<'' # ?t" using Cell by simp
  show ?thesis
  proof (cases "P h")
    case True
    have "exec True (tag_regex H) p (render_item (Cell h b) @ rest) = Some (render_item (Cell h b), [])"
      by (rule tag_exec_cell [OF t h(1) True h(3)])
    then have e: "exec True (tag_regex H) p (CHR ''<'' # ?t @ rest) = Some (CHR ''<'' # ?t, [])"
      by simp
    have "?t \<noteq> []" by simp
    from gscan_skip [OF this, of True "tag_regex H" "Some CHR ''<''" rest]
    have "gscan True (tag_regex H) (length ?t) (Some CHR ''<'') (?t @ rest) =
            gscan True (tag_regex H) 0 (Some (last ?t)) rest" .
    with e have "gscan True (tag_regex H) 0 p ((CHR ''<'' # ?t) @ rest) =
                   Hit (CHR ''<'' # ?t) [] # gscan True (tag_regex H) 0 (Some (last ?t)) rest"
      by simp
    with True Cell tx show ?thesis by (auto simp: pieces_def)
  next
    case False
    have e: "exec True (tag_regex H) p (CHR ''<'' # ?t @ rest) = None"
      using tag_exec_head [OF t h(1) False, of p "b @ ''</mxCell>'' @ rest"] by simp
    have "gscan True (tag_regex H) 0 (Some CHR ''<'') (?t @ rest) =
            map Txt ?t @ gscan True (tag_regex H) 0 (Some (last ?t)) rest"
      using tag_gscan_safe [OF safe_cell_tail [OF na h(2)], of H "Some CHR ''<''" rest]
      by simp
    with e have "gscan True (tag_regex H) 0 p ((CHR ''<'' # ?t) @ rest) =
                   map Txt (CHR ''<'' # ?t) @ gscan True (tag_regex H) 0 (Some (last ?t)) rest"
      by simp
    with False Cell tx show ?thesis by (auto simp: pieces_def)
  qed
qed

lemma tag_gscan_render:
  assumes t: "tagged H W P" and wf: "list_all (gwf W P) its"
  shows "gscan True (tag_regex H) 0 p (render its) = concat (map (pieces P) its)"
  using wf
proof (induction its arbitrary: p)
  case Nil
  have "\<not> starts_ci ''<mxCell'' []" by (simp add: starts_ci_def)
  from tag_exec_dead [OF this] show ?case by (simp add: render_def)
next
  case (Cons it its)
  then have wf: "gwf W P it" "list_all (gwf W P) its" by simp_all
  from tag_gscan_item [OF t wf(1), of p "render its"] obtain p' where
    "gscan True (tag_regex H) 0 p (render_item it @ render its) =
       pieces P it @ gscan True (tag_regex H) 0 p' (render its)" by blast
  with Cons.IH [OF wf(2), of p'] show ?case by (simp add: render_def)
qed

lemma tag_hits: "hits (concat (map (pieces P) its)) = map render_item (filter (hit P) its)"
  by (induction its) (auto simp: hits_append hits_Txt pieces_def)

lemma tag_subst:
  "subst [] (concat (map (pieces P) its)) = render (filter (\<lambda>it. \<not> hit P it) its)"
  by (induction its) (auto simp: subst_append subst_Txt pieces_def render_def)

lemma tag_match_all:
  assumes "tagged H W P" "list_all (gwf W P) its"
  shows "match_all True (tag_regex H) (render its) = map render_item (filter (hit P) its)"
  by (simp add: match_all_def tag_gscan_render [OF assms] tag_hits)

lemma tag_replace_all:
  assumes "tagged H W P" "list_all (gwf W P) its"
  shows "replace_all True (tag_regex H) [] (render its) = render (filter (\<lambda>it. \<not> hit P it) its)"
  by (simp add: replace_all_def tag_gscan_render [OF assms] tag_subst)

lemma fits_seq_append:
  "fits (seq (xs @ ys)) s s' \<longleftrightarrow> (\<exists>t. fits (seq xs) s t \<and> fits (seq ys) t s')"
  by (induction xs arbitrary: s) auto

lemma fits_run_gt: "fits (Many (CNot ''>'')) s s' \<longleftrightarrow> (\<exists>u. s = u @ s' \<and> CHR ''>'' \<notin> set u)"
  by (simp only: fits.simps run_not_gt)

lemma fits_run_dq: "fits (Many (CNot dq)) s s' \<longleftrightarrow> (\<exists>u. s = u @ s' \<and> CHR 0x22 \<notin> set u)"
  by (simp only: fits.simps run_not_dq)

lemma fits_gt: "fits (lit ''>'') s s' \<longleftrightarrow> s = CHR ''>'' # s'"
proof -
  have "fits (lit ''>'') s s' \<longleftrightarrow> (\<exists>u. s = u @ s' \<and> map upc u = map upc ''>'')"
    by (rule fits_lit)
  also have "\<dots> \<longleftrightarrow> s = CHR ''>'' # s'"
  proof
    assume "\<exists>u. s = u @ s' \<and> map upc u = map upc ''>''"
    then obtain u where u: "s = u @ s'" "map upc u = map upc ''>''" by blast
    then obtain x where x: "u = [x]" "upc x = upc (CHR ''>'')" by (cases u) auto
    then have "x = CHR ''>''" using upc_gt [of x] upc_gt [of "CHR ''>''"] by simp
    with x u show "s = CHR ''>'' # s'" by simp
  next
    assume "s = CHR ''>'' # s'"
    then have "s = ''>'' @ s' \<and> map upc ''>'' = map upc ''>''" by simp
    then show "\<exists>u. s = u @ s' \<and> map upc u = map upc ''>''" by blast
  qed
  finally show ?thesis .
qed

lemma fits_dq: "fits (lit dq) s s' \<longleftrightarrow> s = CHR 0x22 # s'"
proof -
  have "fits (lit dq) s s' \<longleftrightarrow> (\<exists>u. s = u @ s' \<and> map upc u = map upc dq)"
    by (rule fits_lit)
  also have "\<dots> \<longleftrightarrow> s = CHR 0x22 # s'"
  proof
    assume "\<exists>u. s = u @ s' \<and> map upc u = map upc dq"
    then obtain u where u: "s = u @ s'" "map upc u = map upc dq" by blast
    then obtain x where x: "u = [x]" "upc x = upc (CHR 0x22)" by (cases u) (auto simp: dq_def)
    then have "x = CHR 0x22" using upc_dq [of x] upc_dq [of "CHR 0x22"] by simp
    with x u show "s = CHR 0x22 # s'" by simp
  next
    assume "s = CHR 0x22 # s'"
    then have "s = dq @ s' \<and> map upc dq = map upc dq" by (simp add: dq_def)
    then show "\<exists>u. s = u @ s' \<and> map upc u = map upc dq" by blast
  qed
  finally show ?thesis .
qed

lemma fits_open:
  "fits (lit ''<mxCell'') (''<mxCell'' @ t) s' \<longleftrightarrow> s' = t"
proof -
  have "fits (lit ''<mxCell'') (''<mxCell'' @ t) s' \<longleftrightarrow>
        (\<exists>u. ''<mxCell'' @ t = u @ s' \<and> map upc u = map upc ''<mxCell'')"
    by (rule fits_lit)
  also have "\<dots> \<longleftrightarrow> s' = t"
  proof
    assume "\<exists>u. ''<mxCell'' @ t = u @ s' \<and> map upc u = map upc ''<mxCell''"
    then obtain u where u: "''<mxCell'' @ t = u @ s'" "map upc u = map upc ''<mxCell''" by blast
    from u(2) have "length u = length ''<mxCell''" by (metis length_map)
    with u(1) show "s' = t" using same_length_prefix [of u s' "''<mxCell''" t] by simp
  next
    assume "s' = t"
    then show "\<exists>u. ''<mxCell'' @ t = u @ s' \<and> map upc u = map upc ''<mxCell''" by blast
  qed
  finally show ?thesis .
qed

text \<open>
  A requirement \<open>M\<close> on the attribute text that takes texts of the kind \<open>E\<close>.
\<close>

lemma fits_head_decomp:
  assumes M: "\<And>s s'. fits (seq M) s s' \<longleftrightarrow> (\<exists>e. s = e @ s' \<and> E e)"
  shows "fits (seq (lit ''<mxCell'' # ([Many (CNot ''>'')] @ M @ [Many (CNot ''>''), lit ''>''])))
           (''<mxCell'' @ h @ ''>'' @ r) s' \<longleftrightarrow>
         (\<exists>u2 e u4. h @ ''>'' @ r = u2 @ e @ u4 @ CHR ''>'' # s' \<and>
              CHR ''>'' \<notin> set u2 \<and> E e \<and> CHR ''>'' \<notin> set u4)"
  (is "?L \<longleftrightarrow> ?D")
proof
  assume ?L
  then obtain t1 where t1: "fits (lit ''<mxCell'') (''<mxCell'' @ h @ ''>'' @ r) t1"
    "fits (seq ([Many (CNot ''>'')] @ M @ [Many (CNot ''>''), lit ''>''])) t1 s'"
    unfolding fits_seq_Cons by blast
  from t1(1) have t1e: "t1 = h @ ''>'' @ r" unfolding fits_open .
  from t1(2) obtain t2 t3 where t: "fits (seq [Many (CNot ''>'')]) t1 t2" "fits (seq M) t2 t3"
    "fits (seq [Many (CNot ''>''), lit ''>'']) t3 s'"
    unfolding fits_seq_append by blast
  from t(1) obtain u2 where u2: "t1 = u2 @ t2" "CHR ''>'' \<notin> set u2"
    unfolding fits_seq_Cons fits_seq_Nil fits_run_gt by blast
  from t(2) obtain e where e: "t2 = e @ t3" "E e" unfolding M by blast
  from t(3) obtain u4 where u4: "t3 = u4 @ CHR ''>'' # s'" "CHR ''>'' \<notin> set u4"
    unfolding fits_seq_Cons fits_seq_Nil fits_run_gt fits_gt by blast
  have "h @ ''>'' @ r = u2 @ e @ u4 @ CHR ''>'' # s'"
    using t1e u2(1) e(1) u4(1) by simp
  with u2(2) e(2) u4(2) show ?D by blast
next
  assume ?D
  then obtain u2 e u4 where d: "h @ ''>'' @ r = u2 @ e @ u4 @ CHR ''>'' # s'"
    "CHR ''>'' \<notin> set u2" "E e" "CHR ''>'' \<notin> set u4" by blast
  have 1: "fits (lit ''<mxCell'') (''<mxCell'' @ h @ ''>'' @ r) (u2 @ e @ u4 @ CHR ''>'' # s')"
    unfolding fits_open d(1) ..
  have 2: "fits (seq [Many (CNot ''>'')]) (u2 @ e @ u4 @ CHR ''>'' # s') (e @ u4 @ CHR ''>'' # s')"
    unfolding fits_seq_Cons fits_seq_Nil fits_run_gt using d(2) by blast
  have 3: "fits (seq M) (e @ u4 @ CHR ''>'' # s') (u4 @ CHR ''>'' # s')"
    unfolding M using d(3) by blast
  have 4: "fits (seq [Many (CNot ''>''), lit ''>'']) (u4 @ CHR ''>'' # s') s'"
    unfolding fits_seq_Cons fits_seq_Nil fits_run_gt fits_gt using d(4) by blast
  from 1 2 3 4 show ?L unfolding fits_seq_Cons [of "lit ''<mxCell''"] fits_seq_append by blast
qed

lemma fits_head_gen:
  assumes h: "CHR ''>'' \<notin> set h"
    and M: "\<And>s s'. fits (seq M) s s' \<longleftrightarrow> (\<exists>e. s = e @ s' \<and> E e)"
    and E: "\<And>e. E e \<Longrightarrow> CHR ''>'' \<notin> set e"
  shows "fits (seq (lit ''<mxCell'' # ([Many (CNot ''>'')] @ M @ [Many (CNot ''>''), lit ''>''])))
           (''<mxCell'' @ h @ ''>'' @ r) s' \<longleftrightarrow>
         s' = r \<and> (\<exists>a e b. h = a @ e @ b \<and> E e)"
  (is "?L \<longleftrightarrow> ?R")
proof -
  let ?D = "\<exists>u2 e u4. h @ ''>'' @ r = u2 @ e @ u4 @ CHR ''>'' # s' \<and>
              CHR ''>'' \<notin> set u2 \<and> E e \<and> CHR ''>'' \<notin> set u4"
  have "?D \<longleftrightarrow> ?R"
  proof
    assume ?D
    then obtain u2 e u4 where d: "h @ ''>'' @ r = u2 @ e @ u4 @ CHR ''>'' # s'"
      "CHR ''>'' \<notin> set u2" "E e" "CHR ''>'' \<notin> set u4" by blast
    from d(2,4) E [OF d(3)] have g: "CHR ''>'' \<notin> set (u2 @ e @ u4)" by simp
    from d(1) have "h @ CHR ''>'' # r = (u2 @ e @ u4) @ CHR ''>'' # s'" by simp
    from split_unique [OF this h g] d(3) show ?R by blast
  next
    assume ?R
    then obtain a e b where r: "s' = r" "h = a @ e @ b" "E e" by blast
    with h have "h @ ''>'' @ r = a @ e @ b @ CHR ''>'' # s'" "CHR ''>'' \<notin> set a" "CHR ''>'' \<notin> set b"
      by simp_all
    with r(3) show ?D by blast
  qed
  with fits_head_decomp [of M E h r s', OF M] show ?thesis by simp
qed

lemma fits_lits:
  "fits (seq (map lit ws)) s s' \<longleftrightarrow> (\<exists>u. s = u @ s' \<and> map upc u = map upc (concat ws))"
proof (induction ws arbitrary: s)
  case Nil
  then show ?case by auto
next
  case (Cons w ws)
  show ?case
  proof
    assume "fits (seq (map lit (w # ws))) s s'"
    then obtain t where t: "fits (lit w) s t" "fits (seq (map lit ws)) t s'" by auto
    from t(1) obtain u1 where 1: "s = u1 @ t" "map upc u1 = map upc w" unfolding fits_lit by blast
    from t(2) Cons obtain u2 where 2: "t = u2 @ s'" "map upc u2 = map upc (concat ws)" by blast
    from 1 2 have "s = (u1 @ u2) @ s' \<and> map upc (u1 @ u2) = map upc (concat (w # ws))" by simp
    then show "\<exists>u. s = u @ s' \<and> map upc u = map upc (concat (w # ws))" by blast
  next
    assume "\<exists>u. s = u @ s' \<and> map upc u = map upc (concat (w # ws))"
    then obtain u where u: "s = u @ s'" "map upc u = map upc w @ map upc (concat ws)" by auto
    from u(2) obtain u1 u2 where 12: "u = u1 @ u2" "map upc u1 = map upc w"
      "map upc u2 = map upc (concat ws)"
      using map_eq_append_conv [of upc u "map upc w" "map upc (concat ws)"] by auto
    have "fits (lit w) s (u2 @ s')" unfolding fits_lit using u(1) 12 by auto
    moreover have "fits (seq (map lit ws)) (u2 @ s') s'" unfolding Cons using 12(3) by blast
    ultimately show "fits (seq (map lit (w # ws))) s s'" by auto
  qed
qed

lemma connectionRegex_tag:
  "connectionRegex i =
     tag_regex ([Many (CNot ''>'')] @
                [Alt (lit ''source'') (lit ''target''), lit (''='' @ dq), lit i, lit dq] @
                [Many (CNot ''>''), lit ''>''])"
  by (simp add: connectionRegex_def tag_regex_def)

lemma connection_mid:
  "fits (seq [Alt (lit ''source'') (lit ''target''), lit (''='' @ dq), lit i, lit dq]) s s' \<longleftrightarrow>
     (\<exists>e. s = e @ s' \<and> (map upc e = map upc (''source='' @ dq @ i @ dq) \<or>
                         map upc e = map upc (''target='' @ dq @ i @ dq)))"
  (is "?L \<longleftrightarrow> ?R")
proof -
  have a: "fits (seq (map lit [''source'', ''='' @ dq, i, dq])) s s' \<longleftrightarrow>
           (\<exists>e. s = e @ s' \<and> map upc e = map upc (''source='' @ dq @ i @ dq))"
    unfolding fits_lits by simp
  have b: "fits (seq (map lit [''target'', ''='' @ dq, i, dq])) s s' \<longleftrightarrow>
           (\<exists>e. s = e @ s' \<and> map upc e = map upc (''target='' @ dq @ i @ dq))"
    unfolding fits_lits by simp
  have "?L \<longleftrightarrow> fits (seq (map lit [''source'', ''='' @ dq, i, dq])) s s' \<or>
               fits (seq (map lit [''target'', ''='' @ dq, i, dq])) s s'"
    by (simp only: list.map seq.simps fits.simps(3) fits.simps(4)) blast
  then show ?thesis unfolding a b by blast
qed

lemma upper_no_gt: "CHR ''>'' \<notin> set t \<Longrightarrow> CHR ''>'' \<notin> set (map upc t)"
proof
  assume t: "CHR ''>'' \<notin> set t" and "CHR ''>'' \<in> set (map upc t)"
  then obtain x where "x \<in> set t" "upc x = CHR ''>''" by auto
  with t upc_gt [of x] show False by simp
qed

lemma connection_tagged:
  assumes "CHR ''>'' \<notin> set i"
  shows "tagged ([Many (CNot ''>'')] @
                 [Alt (lit ''source'') (lit ''target''), lit (''='' @ dq), lit i, lit dq] @
                 [Many (CNot ''>''), lit ''>'']) no_angle (refs i)"
proof -
  let ?M = "[Alt (lit ''source'') (lit ''target''), lit (''='' @ dq), lit i, lit dq]"
  let ?E = "\<lambda>e. map upc e = map upc (''source='' @ dq @ i @ dq) \<or>
                 map upc e = map upc (''target='' @ dq @ i @ dq)"
  have ng: "CHR ''>'' \<notin> set (map upc (''source='' @ dq @ i @ dq))"
    "CHR ''>'' \<notin> set (map upc (''target='' @ dq @ i @ dq))"
    using upper_no_gt [OF assms] by (simp_all add: upc_def lowers_def uppers_def dq_def)
  have E: "CHR ''>'' \<notin> set e" if "?E e" for e
    using that ci_no_char [OF _ ng(1), of e] ci_no_char [OF _ ng(2), of e] by (auto simp: upc_gt)
  have simple: "simple (seq ([Many (CNot ''>'')] @ ?M @ [Many (CNot ''>''), lit ''>'']))"
    by (simp only: simple_seq append.simps list.pred_inject simple_lit simple.simps simp_thms)
  have "fits (seq (lit ''<mxCell'' # ([Many (CNot ''>'')] @ ?M @ [Many (CNot ''>''), lit ''>''])))
           (''<mxCell'' @ h @ ''>'' @ r) s' \<longleftrightarrow> s' = r \<and> refs i h"
    if "no_angle h" for h r s'
  proof -
    from that have h: "CHR ''>'' \<notin> set h" by (simp add: no_angle_def)
    have "(\<exists>a e b. h = a @ e @ b \<and> ?E e) \<longleftrightarrow> refs i h"
      unfolding refs_def includes_ci_iff by blast
    with fits_head_gen [of h ?M ?E r s', OF h connection_mid E] show ?thesis by simp
  qed
  with simple show ?thesis unfolding tagged_def by blast
qed

lemma starts_ci_prefix:
  assumes "b @ t = v @ w" "map upc v = map upc w0" "length v \<le> length b"
  shows "starts_ci w0 (b @ z)"
proof -
  from assms(1) have "take (length v) (b @ t) = take (length v) (v @ w)" by simp
  with assms(3) have "take (length v) b = v" by simp
  then have "b @ z = v @ (drop (length v) b @ z)"
    by (metis append.assoc append_take_drop_id)
  with assms(2) show ?thesis unfolding starts_ci_iff by blast
qed

lemma append_cases:
  assumes "x @ y = u @ z"
  obtains us where "x = u @ us" "us @ y = z" | us where "x @ us = u" "y = us @ z"
  using assms unfolding append_eq_append_conv2 by blast

lemma componentRegex_tag:
  "componentRegex n =
     tag_regex ([Many (CNot ''>'')] @
                [lit vlit, Many (CNot dq), lit n, Many (CNot dq), lit dq] @
                [Many (CNot ''>''), lit ''>''])"
  by (simp add: componentRegex_def tag_regex_def vlit_def)

lemma component_mid:
  "fits (seq [lit vlit, Many (CNot dq), lit n, Many (CNot dq), lit dq]) s s' \<longleftrightarrow>
     (\<exists>e. s = e @ s' \<and> Ev n e)"
  (is "?L \<longleftrightarrow> ?R")
proof
  assume ?L
  then obtain u1 u2 u3 u4 u5 where u: "s = u1 @ u2 @ u3 @ u4 @ u5 @ s'" "map upc u1 = map upc vlit"
    "list_all (cmatch True (CNot dq)) u2" "map upc u3 = map upc n"
    "list_all (cmatch True (CNot dq)) u4" "map upc u5 = map upc dq"
    unfolding fits_five by blast
  from u(6) obtain x where x: "u5 = [x]" "upc x = upc (CHR 0x22)" by (cases u5) (auto simp: dq_def)
  then have "x = CHR 0x22" using upc_dq [of x] upc_dq [of "CHR 0x22"] by simp
  with x have u5: "u5 = dq" by (simp add: dq_def)
  have q: "CHR 0x22 \<notin> set u2" "CHR 0x22 \<notin> set u4"
    using u(3,5) run_not_dq by blast+
  have "s = (u1 @ u2 @ u3 @ u4 @ dq) @ s'" using u(1) u5 by simp
  moreover have "Ev n (u1 @ u2 @ u3 @ u4 @ dq)" unfolding Ev_def using u(2,4) q by blast
  ultimately show ?R by blast
next
  assume ?R
  then obtain v l1 m l2 where e: "s = (v @ l1 @ m @ l2 @ dq) @ s'" "map upc v = map upc vlit"
    "CHR 0x22 \<notin> set l1" "CHR 0x22 \<notin> set l2" "map upc m = map upc n"
    unfolding Ev_def by blast
  have q: "list_all (cmatch True (CNot dq)) l1" "list_all (cmatch True (CNot dq)) l2"
    using e(3,4) run_not_dq by blast+
  have "s = v @ l1 @ m @ l2 @ dq @ s'" using e(1) by simp
  with e(2,5) q show ?L unfolding fits_five by blast
qed

lemma gt_prefix:
  assumes "x @ y = h @ CHR ''>'' # r" "CHR ''>'' \<notin> set x" "CHR ''>'' \<notin> set h"
  shows "\<exists>h'. h = x @ h' \<and> y = h' @ CHR ''>'' # r"
  using assms(1)
proof (cases rule: append_cases)
  case (1 us)
  show ?thesis
  proof (cases us)
    case Nil
    with 1 show ?thesis by simp
  next
    case (Cons c cs)
    with 1(2) have "c = CHR ''>''" by (cases "h") auto
    hence False using 1 Cons assms(2) by auto
    then show ?thesis ..
  qed
next
  case (2 us)
  then show ?thesis by blast
qed

lemma name_no_dq:
  assumes "is_name n" "map upc m = map upc n"
  shows "CHR 0x22 \<notin> set m" "CHR ''>'' \<notin> set m"
proof -
  from assms have w: "list_all is_word m" using same_upc_word by (auto simp: is_name_def)
  have "\<not> is_word (CHR 0x22)" "\<not> is_word (CHR ''>'')"
    by (simp_all add: is_word_def letters_def digits_def)
  with w show "CHR 0x22 \<notin> set m" "CHR ''>'' \<notin> set m" by (auto simp: list_all_iff)
qed

lemma vlit_no_gt: "CHR ''>'' \<notin> set (map upc vlit)"
  by (simp add: vlit_def upc_def lowers_def uppers_def dq_def)

lemma has_label_includes: "has_label n h \<Longrightarrow> includes_str (toUpperCase h) (toUpperCase vlit)"
proof -
  assume "has_label n h"
  then obtain a v r where "h = a @ v @ r" "map upc v = map upc vlit"
    unfolding has_label_def by blast
  then show ?thesis unfolding includes_ci_iff by blast
qed

lemma Ev_start:
  assumes "Ev n e"
  obtains v w where "e = v @ w" "map upc v = map upc vlit"
  using assms unfolding Ev_def by blast

lemma clear_append:
  assumes "clear t u (v @ tail)" "clear t v tail"
  shows "clear t (u @ v) tail"
  unfolding clear_def
proof (intro allI impI)
  fix a b
  assume ab: "u @ v = a @ b" and b: "b \<noteq> []"
  from ab show "\<not> starts_with t (b @ tail)"
  proof (cases rule: append_cases)
    case (1 us)
    show ?thesis
    proof (cases "us = []")
      case True
      with 1 b assms(2) show ?thesis unfolding clear_def by auto
    next
      case False
      with 1 assms(1) have "\<not> starts_with t (us @ v @ tail)" unfolding clear_def by blast
      with 1 show ?thesis by auto
    qed
  next
    case (2 us)
    with b assms(2) show ?thesis unfolding clear_def by blast
  qed
qed

lemma replace_first_clear:
  assumes "clear t u (t @ w)"
  shows "replace_first (u @ t @ w) t r = u @ r @ w"
  using assms
proof (induction u)
  case Nil
  define s where "s = t @ w"
  have st: "starts_with t s" unfolding starts_with_iff s_def by blast
  have dr: "drop (length t) s = w" by (simp add: s_def)
  have "replace_first s t r = r @ w"
  proof (cases s)
    case Nil
    with s_def show ?thesis by simp
  next
    case (Cons y ys)
    with st dr show ?thesis by simp
  qed
  then show ?case by (simp add: s_def)
next
  case (Cons x u)
  from Cons.prems have 1: "\<not> starts_with t ((x # u) @ t @ w)" unfolding clear_def by blast
  from Cons.prems have "clear t u (t @ w)" unfolding clear_def
    by (metis append_Cons)
  from Cons.IH [OF this] 1 show ?case by simp
qed

lemma starts_with_open:
  assumes "starts_with (''<mxCell'' @ t) s"
  shows "starts_ci ''<mxCell'' s"
proof -
  from assms obtain x where "s = ''<mxCell'' @ (t @ x)" unfolding starts_with_iff by auto
  then show ?thesis unfolding starts_ci_iff by blast
qed

lemma clear_safe:
  assumes "safe ''<mxCell'' u"
  shows "clear (''<mxCell'' @ t) u tail"
  unfolding clear_def
proof (intro allI impI)
  fix a b
  assume "u = a @ b" "b \<noteq> []"
  from safe_dead [OF assms this] starts_with_open show "\<not> starts_with (''<mxCell'' @ t) (b @ tail)"
    by blast
qed

lemma clear_tag:
  assumes "safe ''<mxCell'' u" "\<not> starts_with (''<mxCell'' @ t) (CHR ''<'' # u @ tail)"
  shows "clear (''<mxCell'' @ t) (CHR ''<'' # u) tail"
  unfolding clear_def
proof (intro allI impI)
  fix a b
  assume ab: "CHR ''<'' # u = a @ b" and b: "b \<noteq> []"
  show "\<not> starts_with (''<mxCell'' @ t) (b @ tail)"
  proof (cases a)
    case Nil
    with ab have e: "b @ tail = CHR ''<'' # u @ tail" by simp
    show ?thesis unfolding e by (rule assms(2))
  next
    case (Cons c cs)
    with ab have "u = cs @ b" by simp
    from safe_dead [OF assms(1) this b] starts_with_open show ?thesis by blast
  qed
qed

lemma head_differs:
  assumes "CHR ''>'' \<notin> set h" "CHR ''>'' \<notin> set h1" "h \<noteq> h1"
  shows "\<not> starts_with (''<mxCell'' @ h1 @ ''>'' @ x) (CHR ''<'' # ''mxCell'' @ h @ ''>'' @ y)"
proof
  assume "starts_with (''<mxCell'' @ h1 @ ''>'' @ x) (CHR ''<'' # ''mxCell'' @ h @ ''>'' @ y)"
  then obtain z where "CHR ''<'' # ''mxCell'' @ h @ ''>'' @ y = (''<mxCell'' @ h1 @ ''>'' @ x) @ z"
    unfolding starts_with_iff by blast
  then have "h @ CHR ''>'' # y = h1 @ CHR ''>'' # (x @ z)" by simp
  from split_unique [OF this assms(1,2)] assms(3) show False by simp
qed

lemma clear_item:
  assumes t: "tagged H W P" and wf: "gwf W P it" and no: "\<not> hit P it"
    and h1: "W h1" "P h1"
  shows "clear (render_item (Cell h1 b1)) (render_item it) tail"
proof -
  have tx: "render_item (Cell h1 b1) = ''<mxCell'' @ (h1 @ ''>'' @ b1 @ ''</mxCell>'')" by simp
  from t h1(1) have g1: "CHR ''>'' \<notin> set h1" unfolding tagged_def no_angle_def by blast
  show ?thesis
  proof (cases it)
    case (Gap g)
    with wf have "safe ''<mxCell'' g" by simp
    then show ?thesis unfolding tx Gap render_item.simps by (rule clear_safe)
  next
    case (Stub h)
    with wf have h: "W h" "\<not> P h" by simp_all
    with t have na: "no_angle h" unfolding tagged_def by blast
    from h h1 have ne: "h \<noteq> h1" by blast
    from na have g: "CHR ''>'' \<notin> set h" by (simp add: no_angle_def)
    have "clear (''<mxCell'' @ (h1 @ ''>'' @ b1 @ ''</mxCell>'')) (CHR ''<'' # (''mxCell'' @ h @ ''>'')) tail"
      using head_differs [OF g g1 ne, of "b1 @ ''</mxCell>''" tail]
      by (intro clear_tag safe_stub_tail [OF na]) simp
    then show ?thesis unfolding tx Stub by simp
  next
    case (Cell h b)
    with wf no have h: "W h" "\<not> P h" "safe ''<mxCell'' b" by simp_all
    with t have na: "no_angle h" unfolding tagged_def by blast
    from h h1 have ne: "h \<noteq> h1" by blast
    from na have g: "CHR ''>'' \<notin> set h" by (simp add: no_angle_def)
    have "clear (''<mxCell'' @ (h1 @ ''>'' @ b1 @ ''</mxCell>''))
            (CHR ''<'' # (''mxCell'' @ h @ ''>'' @ b @ ''</mxCell>'')) tail"
      using head_differs [OF g g1 ne, of "b1 @ ''</mxCell>''" "b @ ''</mxCell>'' @ tail"]
      by (intro clear_tag safe_cell_tail [OF na h(3)]) simp
    then show ?thesis unfolding tx Cell by simp
  qed
qed

lemma clear_items:
  assumes t: "tagged H W P" and h1: "W h1" "P h1"
  shows "list_all (gwf W P) pre \<Longrightarrow> \<forall>it \<in> set pre. \<not> hit P it \<Longrightarrow>
         clear (render_item (Cell h1 b1)) (render pre) tail"
proof (induction pre)
  case Nil
  then show ?case by (simp add: render_def clear_def)
next
  case (Cons it pre)
  then have wf: "gwf W P it" "\<not> hit P it" and IH: "clear (render_item (Cell h1 b1)) (render pre) tail"
    by simp_all
  from clear_item [OF t wf h1, of b1 "render pre @ tail"] IH
  have "clear (render_item (Cell h1 b1)) (render_item it @ render pre) tail"
    by (rule clear_append)
  then show ?case by (simp add: render_def)
qed

lemma render_append: "render (xs @ ys) = render xs @ render ys"
  by (simp add: render_def)

lemma remove_each_hits:
  assumes t: "tagged H W P"
  shows "list_all (gwf W P) its \<Longrightarrow> length (filter (hit P) its) = k \<Longrightarrow>
         remove_each (map render_item (filter (hit P) its)) (render its) =
           render (filter (\<lambda>it. \<not> hit P it) its)"
proof (induction k arbitrary: its)
  case 0
  then have "filter (hit P) its = []" by simp
  moreover from this have "filter (\<lambda>it. \<not> hit P it) its = its"
    by (simp add: filter_empty_conv)
  ultimately show ?case by simp
next
  case (Suc k)
  then obtain c cs where f: "filter (hit P) its = c # cs" by (cases "filter (hit P) its") auto
  then obtain pre post where p: "its = pre @ c # post" "\<forall>it \<in> set pre. \<not> hit P it" "hit P c"
    "cs = filter (hit P) post"
    unfolding filter_eq_Cons_iff by blast
  from p(3) obtain h1 b1 where c: "c = Cell h1 b1" "P h1" by (cases c) auto
  from Suc.prems(1) p(1) c have wf: "list_all (gwf W P) pre" "list_all (gwf W P) post" "W h1"
    by simp_all
  have r: "render its = render pre @ render_item c @ render post"
    unfolding p(1) by (simp add: render_def)
  have "clear (render_item (Cell h1 b1)) (render pre) (render_item (Cell h1 b1) @ render post)"
    by (rule clear_items [OF t wf(3) c(2) wf(1) p(2)])
  from replace_first_clear [OF this, of "[]"] c(1)
  have 1: "replace_first (render its) (render_item c) [] = render (pre @ post)"
    unfolding r by (simp add: render_append)
  have f2: "filter (hit P) (pre @ post) = cs" using p(2,4) by (simp add: filter_empty_conv)
  have wf2: "list_all (gwf W P) (pre @ post)" using wf by simp
  have "length (filter (hit P) (pre @ post)) = k" using f2 f Suc.prems(2) by simp
  note IH = Suc.IH [OF wf2 this]
  have 2: "remove_each (map render_item cs) (render (pre @ post)) =
          render (filter (\<lambda>it. \<not> hit P it) (pre @ post))" using IH unfolding f2 .
  have 3: "filter (\<lambda>it. \<not> hit P it) its = filter (\<lambda>it. \<not> hit P it) (pre @ post)"
    unfolding p(1) using p(3) by simp
  have "remove_each (map render_item (c # cs)) (render its) =
          remove_each (map render_item cs) (replace_first (render its) (render_item c) [])"
    by simp
  also have "\<dots> = render (filter (\<lambda>it. \<not> hit P it) its)" unfolding 1 2 3 ..
  finally show ?case unfolding f .
qed

lemma search_dead:
  assumes "\<forall>a b p'. u = a @ b \<longrightarrow> b \<noteq> [] \<longrightarrow> exec ic r p' (b @ rest) = None"
  shows "search ic r p (u @ rest) = search ic r (if u = [] then p else Some (last u)) rest"
  using assms
proof (induction u arbitrary: p)
  case Nil
  show ?case by simp
next
  case (Cons x u)
  have "x # u = [] @ (x # u)" by simp
  with Cons.prems have e: "exec ic r p ((x # u) @ rest) = None" by blast
  have "\<forall>a b p'. u = a @ b \<longrightarrow> b \<noteq> [] \<longrightarrow> exec ic r p' (b @ rest) = None"
  proof (intro allI impI)
    fix a b p'
    assume "u = a @ b" and b: "b \<noteq> []"
    then have "x # u = (x # a) @ b" by simp
    with Cons.prems b show "exec ic r p' (b @ rest) = None" by blast
  qed
  from Cons.IH [OF this, of "Some x"] e show ?case by (cases u) simp_all
qed

lemma rmatch_single:
  assumes "ends ic r st = {st'}"
  shows "rmatch ic r k st = k st'"
proof (cases "rmatch ic r k st")
  case None
  then have "\<forall>x \<in> ends ic r st. k x = None" by (rule rmatch_None [THEN iffD1])
  with assms None show ?thesis by simp
next
  case (Some res)
  from rmatch_Some [OF this] assms Some show ?thesis by simp
qed

lemma idRegex_split:
  "idRegex n = seq ([lit idlit, Cap 1 (Many (CNot dq)), lit dq] @ label_part n)"
  by (simp add: idRegex_def idlit_def vlit_def label_part_def)

lemma strip_lit_at:
  assumes "map upc w = map upc w0" "w \<noteq> []"
  shows "strip_lit True w0 p (w @ t) = Some (Some (last w), t)"
proof -
  from assms have "\<exists>u. w @ t = u @ t \<and> map upc u = map upc w0 \<and>
      Some (last w) = (if u = [] then p else Some (last u))" by auto
  then show ?thesis by (rule strip_lit_Some [THEN iffD2])
qed

lemma ends_dq:
  "ends True (lit dq) (p, s, c) =
     (case s of [] \<Rightarrow> {} | x # xs \<Rightarrow> if x = CHR 0x22 then {(Some x, xs, c)} else {})"
proof -
  have "\<And>x. upc (CHR 0x22) = upc x \<longleftrightarrow> x = CHR 0x22"
    using upc_dq [of "CHR 0x22"] upc_dq by metis
  then show ?thesis by (auto simp: dq_def split: list.splits)
qed

lemma cap_dq_ends:
  assumes i: "CHR 0x22 \<notin> set i"
  shows "ends True (seq [Cap 1 (Many (CNot dq)), lit dq]) (p, i @ CHR 0x22 # r, []) =
           {(Some (CHR 0x22), r, [(1, i)])}"
    (is "?E = ?R")
proof -
  define s where "s = i @ CHR 0x22 # r"
  define ok where "ok = cmatch True (CNot dq)"
  have E: "?E = (\<Union>(p', s', c') \<in> runs ok (p, s, []).
              ends True (lit dq) (p', s', (1, take (length s - length s') s) # c'))"
    unfolding s_def ok_def by auto
  have ok: "\<And>u. list_all ok u \<longleftrightarrow> CHR 0x22 \<notin> set u" unfolding ok_def by (rule run_not_dq)
  show ?thesis
  proof (rule set_eqI, rule iffI)
    fix st
    assume "st \<in> ?E"
    with E obtain p' s' c' where r: "(p', s', c') \<in> runs ok (p, s, [])"
      and st: "st \<in> ends True (lit dq) (p', s', (1, take (length s - length s') s) # c')"
      by auto
    from r obtain u where u: "c' = []" "s = u @ s'" "list_all ok u"
      unfolding runs_iff by blast
    from st obtain xs where xs: "s' = CHR 0x22 # xs"
        "st = (Some (CHR 0x22), xs, (1, take (length s - length s') s) # c')"
      unfolding ends_dq by (auto split: list.splits if_splits)
    from u(2) xs(1) have "i @ CHR 0x22 # r = u @ CHR 0x22 # xs" by (simp add: s_def)
    from split_unique [OF this i] u(3) ok have iu: "i = u" "r = xs" by simp_all
    from u(2) have "take (length s - length s') s = u" by simp
    with xs iu u(1) show "st \<in> ?R" by simp
  next
    fix st
    assume "st \<in> ?R"
    then have st: "st = (Some (CHR 0x22), r, [(1, i)])" by simp
    define p' where "p' = (if i = [] then p else Some (last i))"
    from i ok have "(p', CHR 0x22 # r, []) \<in> runs ok (p, s, [])"
      unfolding runs_iff s_def p'_def by blast
    moreover have "take (length s - length (CHR 0x22 # r)) s = i" by (simp add: s_def)
    then have "st \<in> ends True (lit dq)
        (p', CHR 0x22 # r, (1, take (length s - length (CHR 0x22 # r)) s) # [])"
      unfolding ends_dq st by simp
    ultimately show "st \<in> ?E" unfolding E by blast
  qed
qed

lemma id_part_ends:
  assumes i: "CHR 0x22 \<notin> set i" and w: "map upc w = map upc idlit"
  shows "ends True (seq [lit idlit, Cap 1 (Many (CNot dq)), lit dq]) (p, w @ i @ CHR 0x22 # r, []) =
           {(Some (CHR 0x22), r, [(1, i)])}"
proof -
  from w have "length w = length idlit" by (metis length_map)
  then have ne: "w \<noteq> []" by (auto simp: idlit_def)
  have "ends True (seq [lit idlit, Cap 1 (Many (CNot dq)), lit dq]) (p, w @ i @ CHR 0x22 # r, []) =
        (\<Union>st' \<in> ends True (lit idlit) (p, w @ i @ CHR 0x22 # r, []).
            ends True (seq [Cap 1 (Many (CNot dq)), lit dq]) st')"
    by simp
  also have "ends True (lit idlit) (p, w @ i @ CHR 0x22 # r, []) = {(Some (last w), i @ CHR 0x22 # r, [])}"
    unfolding ends_lit strip_lit_at [OF w ne] by simp
  finally show ?thesis using cap_dq_ends [OF i] by simp
qed

lemma label_part_fits:
  "fits (seq (label_part n)) r s' \<longleftrightarrow> (\<exists>u e. r = u @ e @ s' \<and> CHR ''>'' \<notin> set u \<and> Ev n e)"
proof -
  have "fits (seq (label_part n)) r s' \<longleftrightarrow>
        (\<exists>t. fits (Many (CNot ''>'')) r t \<and>
             fits (seq [lit vlit, Many (CNot dq), lit n, Many (CNot dq), lit dq]) t s')"
    unfolding label_part_def by (rule fits_seq_Cons)
  also have "\<dots> \<longleftrightarrow> (\<exists>u e. r = u @ e @ s' \<and> CHR ''>'' \<notin> set u \<and> Ev n e)"
    unfolding fits_run_gt component_mid by blast
  finally show ?thesis .
qed

lemma same_upc_no_gt:
  assumes "map upc v = map upc w" "CHR ''>'' \<notin> set (map upc w)"
  shows "CHR ''>'' \<notin> set v"
proof
  assume "CHR ''>'' \<in> set v"
  then have "upc (CHR ''>'') \<in> set (map upc v)" by simp
  moreover have "upc (CHR ''>'') = CHR ''>''" using upc_gt [of "CHR ''>''"] by simp
  ultimately show False using assms by simp
qed

lemma vlit_in:
  assumes r: "h @ CHR ''>'' # rest = u @ e @ s'" and e: "Ev n e"
    and u: "CHR ''>'' \<notin> set u" and h: "CHR ''>'' \<notin> set h"
  obtains v w y where "e = v @ w" "h = u @ v @ y" "map upc v = map upc vlit"
    "w @ s' = y @ CHR ''>'' # rest"
proof -
  from e obtain v w where vw: "e = v @ w" "map upc v = map upc vlit" by (rule Ev_start)
  from same_upc_no_gt [OF vw(2) vlit_no_gt] u have g: "CHR ''>'' \<notin> set (u @ v)" by simp
  from r vw(1) have "(u @ v) @ (w @ s') = h @ CHR ''>'' # rest" by simp
  from gt_prefix [OF this g h] obtain y where "h = (u @ v) @ y" "w @ s' = y @ CHR ''>'' # rest"
    by blast
  with vw that show ?thesis by simp
qed

lemma id_rmatch:
  assumes i: "CHR 0x22 \<notin> set i" and w: "map upc w = map upc idlit"
  shows "rmatch True (idRegex n) k (p, w @ i @ CHR 0x22 # r, []) =
           rmatch True (seq (label_part n)) k (Some (CHR 0x22), r, [(1, i)])"
  unfolding idRegex_split rmatch_seq_append by (rule rmatch_single [OF id_part_ends [OF i w]])

lemma simple_label_part: "simple (seq (label_part n))"
  by (simp add: label_part_def simple_lit)

lemma id_exec_none:
  assumes i: "CHR 0x22 \<notin> set i" and w: "map upc w = map upc idlit"
    and no: "\<forall>s'. \<not> fits (seq (label_part n)) r s'"
  shows "exec True (idRegex n) p (w @ i @ CHR 0x22 # r) = None"
proof -
  have "rmatch True (seq (label_part n)) Some (Some (CHR 0x22), r, [(1, i)]) = None"
  proof (rule rmatch_None [THEN iffD2], rule ballI)
    fix st
    assume st: "st \<in> ends True (seq (label_part n)) (Some (CHR 0x22), r, [(1, i)])"
    obtain p' s' c' where e: "st = (p', s', c')" by (cases st)
    from ends_simple_caps [OF simple_label_part st [unfolded e]] have "c' = [(1, i)]" .
    with st e have "\<exists>p'. (p', s', [(1, i)]) \<in> ends True (seq (label_part n)) (Some (CHR 0x22), r, [(1, i)])"
      by blast
    then have "fits (seq (label_part n)) r s'" by (rule ends_fits [OF simple_label_part, THEN iffD1])
    with no show "Some st = None" by blast
  qed
  then show ?thesis unfolding exec_def id_rmatch [OF i w] by simp
qed

lemma id_exec_some:
  assumes i: "CHR 0x22 \<notin> set i" and w: "map upc w = map upc idlit"
    and fit: "fits (seq (label_part n)) r s'"
  shows "\<exists>m. exec True (idRegex n) p (w @ i @ CHR 0x22 # r) = Some (m, [(1, i)])"
proof -
  define st0 :: mstate where "st0 = (Some (CHR 0x22), r, [(1, i)])"
  from fit have "\<exists>p'. (p', s', [(1, i)]) \<in> ends True (seq (label_part n)) (Some (CHR 0x22), r, [(1, i)])"
    by (rule ends_fits [OF simple_label_part, THEN iffD2])
  then obtain p' where in_ends: "(p', s', [(1, i)]) \<in> ends True (seq (label_part n)) st0"
    unfolding st0_def by blast
  have "rmatch True (seq (label_part n)) Some st0 \<noteq> None"
  proof
    assume "rmatch True (seq (label_part n)) Some st0 = None"
    then have "\<forall>x \<in> ends True (seq (label_part n)) st0. Some x = None"
      by (rule rmatch_None [THEN iffD1])
    with in_ends show False by blast
  qed
  then obtain res where res: "rmatch True (seq (label_part n)) Some st0 = Some res" by blast
  from rmatch_Some [OF res] have mem: "res \<in> ends True (seq (label_part n)) st0" by auto
  obtain p2 s2 c2 where e: "res = (p2, s2, c2)" by (cases res)
  from ends_simple_caps [OF simple_label_part mem [unfolded e st0_def]] have "c2 = [(1, i)]" .
  with res e show ?thesis unfolding exec_def id_rmatch [OF i w] st0_def [symmetric] by simp
qed

lemma three_way:
  assumes "pre @ x # post = a @ b" "b \<noteq> []"
  obtains us where "us \<noteq> []" "pre = a @ us" "b = us @ x # post"
  | "a = pre" "b = x # post"
  | vs where "post = vs @ b"
  using assms(1)
proof (cases rule: append_cases)
  case (1 us)
  show ?thesis
  proof (cases us)
    case Nil
    with 1 that(2) show ?thesis by simp
  next
    case (Cons c cs)
    with 1 have "us \<noteq> []" "pre = a @ us" "b = us @ x # post" by auto
    then show ?thesis by (rule that(1))
  qed
next
  case (2 us)
  show ?thesis
  proof (cases us)
    case Nil
    with 2 that(2) show ?thesis by simp
  next
    case (Cons c cs)
    with 2 have "post = cs @ b" by simp
    then show ?thesis by (rule that(3))
  qed
qed

lemma idRegex_first: "idRegex n = seq (lit idlit # Cap 1 (Many (CNot dq)) # lit dq # label_part n)"
  by (simp add: idRegex_def idlit_def vlit_def label_part_def)

lemma id_not_here:
  assumes "\<not> starts_ci idlit s"
  shows "exec True (idRegex n) p s = None"
  unfolding idRegex_first using assms by (rule exec_lit_first)

lemma search_hit: "exec ic r p s = Some m \<Longrightarrow> search ic r p s = Some m"
  by (cases s) simp_all

lemma find_split:
  "find P xs = Some x \<Longrightarrow> \<exists>pre post. xs = pre @ x # post \<and> P x \<and> (\<forall>y \<in> set pre. \<not> P y)"
proof (induction xs)
  case Nil
  then show ?case by simp
next
  case (Cons y ys)
  show ?case
  proof (cases "P y")
    case True
    with Cons.prems have "y # ys = [] @ x # ys \<and> P x \<and> (\<forall>z \<in> set []. \<not> P z)" by simp
    then show ?thesis by blast
  next
    case False
    with Cons obtain pre post where "ys = pre @ x # post" "P x" "\<forall>z \<in> set pre. \<not> P z" by auto
    with False have "y # ys = (y # pre) @ x # post \<and> P x \<and> (\<forall>z \<in> set (y # pre). \<not> P z)" by simp
    then show ?thesis by blast
  qed
qed

lemma no_angle_append: "no_angle (x @ y) \<longleftrightarrow> no_angle x \<and> no_angle y"
  by (auto simp: no_angle_def)

lemma refs_needs:
  assumes "refs j h"
  shows "includes_str (toUpperCase h) (toUpperCase (''source='' @ dq)) \<or>
         includes_str (toUpperCase h) (toUpperCase (''target='' @ dq))"
proof -
  have k: "\<And>w. includes_str (toUpperCase h) (toUpperCase (w @ j @ dq)) \<Longrightarrow>
                includes_str (toUpperCase h) (toUpperCase w)"
  proof -
    fix w
    assume "includes_str (toUpperCase h) (toUpperCase (w @ j @ dq))"
    then obtain x e y where h: "h = x @ e @ y" "map upc e = map upc (w @ j @ dq)"
      unfolding includes_ci_iff by blast
    define e1 where "e1 = take (length w) e"
    define e2 where "e2 = drop (length w) e"
    have e: "e = e1 @ e2" by (simp add: e1_def e2_def)
    from h(2) have "take (length w) (map upc e) = map upc w" by simp
    then have "map upc e1 = map upc w" by (simp add: e1_def take_map)
    moreover from h(1) e have "h = x @ e1 @ (e2 @ y)" by simp
    ultimately show "includes_str (toUpperCase h) (toUpperCase w)" unfolding includes_ci_iff by blast
  qed
  from assms k [of "''source='' @ dq"] k [of "''target='' @ dq"] show ?thesis
    unfolding refs_def by auto
qed

lemma value_occurrence:
  assumes ok: "head_ok i x l a"
    and eq: "cell_head i x l a @ tail = u @ v @ w"
    and v: "map upc v = map upc vlit"
    and len: "length u + length v \<le> length (cell_head i x l a)"
  shows "u = '' id='' @ dq @ i @ dq @ x @ '' '' \<and> w = l @ dq @ a @ tail"
proof -
  define X where "X = '' id='' @ dq @ i @ dq @ x @ '' ''"
  define T0 where "T0 = tl vlit @ l @ dq @ a"
  define R where "R = l @ dq @ a @ tail"
  have hd: "cell_head i x l a @ tail = X @ (vlit @ R)"
    by (simp add: cell_head_def vlit_def X_def R_def)
  have vT: "vlit @ R = CHR ''v'' # (T0 @ tail)" by (simp add: vlit_def T0_def R_def)
  have lh: "length (cell_head i x l a) = length X + 1 + length T0"
    by (simp add: cell_head_def vlit_def X_def T0_def)
  from ok have sX: "safe vlit X" and sT: "safe vlit (T0 @ ''>'')"
    by (simp_all add: head_ok_def X_def T0_def)
  from v have lv: "length v = length vlit" by (metis length_map)
  then have lv0: "0 < length v" by (simp add: vlit_def)
  have same: "w = R" if e: "vlit @ R = v @ w"
  proof -
    from lv have "length vlit = length v \<or> length R = length w" by simp
    from append_eq_append_conv [OF this] e show ?thesis by blast
  qed
  from eq hd have "X @ (vlit @ R) = u @ (v @ w)" by (simp only:)
  then have "u = X \<and> w = R"
  proof (cases rule: append_cases)
    case (1 us)
    show ?thesis
    proof (cases "us = []")
      case True
      with 1 same show ?thesis by simp
    next
      case False
      have "starts_ci vlit (us @ (vlit @ R))"
        unfolding starts_ci_iff using 1(2) v by blast
      with safe_dead [OF sX 1(1) False] show ?thesis by blast
    qed
  next
    case (2 us)
    show ?thesis
    proof (cases us)
      case Nil
      with 2 same show ?thesis by simp
    next
      case (Cons x us')
      from 2(2) have "CHR ''v'' # (T0 @ tail) = x # (us' @ v @ w)"
        unfolding vT Cons by simp
      then have t: "T0 @ tail = us' @ v @ w" by simp
      have "length u = length X + 1 + length us'" using 2(1) Cons by auto
      with lh len have l2: "length us' + length v \<le> length T0" by simp
      with lv0 have l3: "length us' < length T0" by linarith
      from t have "take (length us') (T0 @ tail) = us'" by simp
      with l3 have "take (length us') T0 = us'" by simp
      then have T0: "T0 = us' @ drop (length us') T0"
        by (metis append_take_drop_id)
      define b' where "b' = drop (length us') T0"
      from T0 have T0': "T0 = us' @ b'" by (simp only: b'_def)
      from t have "us' @ (b' @ tail) = us' @ (v @ w)" unfolding T0' by simp
      then have bt: "b' @ tail = v @ w" by (simp only: same_append_eq)
      from l2 have "length us' + length v \<le> length us' + length b'"
        unfolding T0' by simp
      then have lb: "length v \<le> length b'" by simp
      from starts_ci_prefix [OF bt v lb, of "''>''"] have st: "starts_ci vlit (b' @ ''>'')" .
      have ne: "b' @ ''>'' \<noteq> []" by simp
      have "T0 @ ''>'' = us' @ (b' @ ''>'')" unfolding T0' by simp
      from safe_dead [OF sT this ne, of "[]"] st show ?thesis by simp
    qed
  qed
  then show ?thesis by (simp add: X_def R_def)
qed

lemma has_label_head:
  assumes ok: "head_ok i x l a" and n: "is_name n"
  shows "has_label n (cell_head i x l a) \<longleftrightarrow> includes_str (toUpperCase l) (toUpperCase n)"
proof
  assume "has_label n (cell_head i x l a)"
  then obtain a0 v l1 m l2 b0 where d: "cell_head i x l a = a0 @ v @ l1 @ m @ l2 @ dq @ b0"
    "map upc v = map upc vlit" "CHR 0x22 \<notin> set l1" "CHR 0x22 \<notin> set l2" "map upc m = map upc n"
    unfolding has_label_def by blast
  from d(1) have eq: "cell_head i x l a @ [] = a0 @ v @ (l1 @ m @ l2 @ dq @ b0)" by simp
  from d(1) have "length a0 + length v \<le> length (cell_head i x l a)" by simp
  from value_occurrence [OF ok eq d(2) this] have w: "l1 @ m @ l2 @ dq @ b0 = l @ dq @ a @ []" by simp
  from ok have ql: "CHR 0x22 \<notin> set l" by (simp add: head_ok_def)
  from d(3,4) name_no_dq(1) [OF n d(5)] have q: "CHR 0x22 \<notin> set (l1 @ m @ l2)" by simp
  from w have "(l1 @ m @ l2) @ CHR 0x22 # b0 = l @ CHR 0x22 # a" by (simp add: dq_def)
  from split_unique [OF this q ql] have "l = l1 @ m @ l2" by simp
  with d(5) show "includes_str (toUpperCase l) (toUpperCase n)" unfolding includes_ci_iff by blast
next
  assume "includes_str (toUpperCase l) (toUpperCase n)"
  then obtain l0 m y where l: "l = l0 @ m @ y" "map upc m = map upc n"
    unfolding includes_ci_iff by blast
  from ok l(1) have q: "CHR 0x22 \<notin> set l0" "CHR 0x22 \<notin> set y" by (simp_all add: head_ok_def)
  have "cell_head i x l a = ('' id='' @ dq @ i @ dq @ x @ '' '') @ vlit @ l0 @ m @ y @ dq @ a"
    by (simp add: cell_head_def vlit_def l(1))
  with q l(2) show "has_label n (cell_head i x l a)" unfolding has_label_def by blast
qed

lemma component_tagged:
  assumes n: "is_name n"
  shows "tagged ([Many (CNot ''>'')] @
                 [lit vlit, Many (CNot dq), lit n, Many (CNot dq), lit dq] @
                 [Many (CNot ''>''), lit ''>'']) comp_head (has_label n)"
proof -
  let ?M = "[lit vlit, Many (CNot dq), lit n, Many (CNot dq), lit dq]"
  have simple: "simple (seq ([Many (CNot ''>'')] @ ?M @ [Many (CNot ''>''), lit ''>'']))"
    by (simp only: simple_seq append.simps list.pred_inject simple_lit simple.simps simp_thms)
  have na: "no_angle h" if "comp_head h" for h using that by (simp add: comp_head_def)
  have "fits (seq (lit ''<mxCell'' # ([Many (CNot ''>'')] @ ?M @ [Many (CNot ''>''), lit ''>''])))
           (''<mxCell'' @ h @ ''>'' @ r) s' \<longleftrightarrow> s' = r \<and> has_label n h"
    (is "?L \<longleftrightarrow> ?R") if W: "comp_head h" for h r s'
  proof -
    from W have h: "CHR ''>'' \<notin> set h" by (simp add: comp_head_def no_angle_def)
    let ?D = "\<exists>u2 e u4. h @ ''>'' @ r = u2 @ e @ u4 @ CHR ''>'' # s' \<and>
                CHR ''>'' \<notin> set u2 \<and> Ev n e \<and> CHR ''>'' \<notin> set u4"
    have LD: "?L \<longleftrightarrow> ?D" by (rule fits_head_decomp [OF component_mid])
    have "?D \<longleftrightarrow> ?R"
    proof
      assume ?R
      then obtain a0 v l1 m l2 b0 where d: "s' = r" "h = a0 @ v @ l1 @ m @ l2 @ dq @ b0"
        "map upc v = map upc vlit" "CHR 0x22 \<notin> set l1" "CHR 0x22 \<notin> set l2" "map upc m = map upc n"
        unfolding has_label_def by blast
      from d(2) h have g: "CHR ''>'' \<notin> set a0" "CHR ''>'' \<notin> set b0" by simp_all
      have "Ev n (v @ l1 @ m @ l2 @ dq)" unfolding Ev_def using d(3-6) by blast
      moreover have "h @ ''>'' @ r = a0 @ (v @ l1 @ m @ l2 @ dq) @ b0 @ CHR ''>'' # s'"
        using d(1,2) by simp
      ultimately show ?D using g by blast
    next
      assume ?D
      then obtain u2 e u4 where d: "h @ ''>'' @ r = u2 @ e @ u4 @ CHR ''>'' # s'"
        "CHR ''>'' \<notin> set u2" "Ev n e" "CHR ''>'' \<notin> set u4" by blast
      from d(3) obtain v l1 m l2 where e: "e = v @ l1 @ m @ l2 @ dq" "map upc v = map upc vlit"
        "CHR 0x22 \<notin> set l1" "CHR 0x22 \<notin> set l2" "map upc m = map upc n"
        unfolding Ev_def by blast
      define w where "w = l1 @ m @ l2 @ dq @ u4 @ CHR ''>'' # s'"
      have eq: "h @ CHR ''>'' # r = (u2 @ v) @ w" using d(1) e(1) by (simp add: w_def)
      have gv: "CHR ''>'' \<notin> set v"
        by (rule ci_no_char [OF e(2) vlit_no_gt]) (simp add: upc_gt)
      with d(2) have g: "CHR ''>'' \<notin> set (u2 @ v)" by simp
      from gt_prefix [OF eq [symmetric] g h] obtain h' where h': "h = (u2 @ v) @ h'" by blast
      then have inc: "includes_str (toUpperCase h) (toUpperCase vlit)"
        unfolding includes_ci_iff using e(2) by auto
      with W obtain i x l a where s: "h = cell_head i x l a" "head_ok i x l a"
        unfolding comp_head_def by blast
      from eq s(1) have eq': "cell_head i x l a @ (CHR ''>'' # r) = u2 @ v @ w" by simp
      from h' s(1) have len: "length u2 + length v \<le> length (cell_head i x l a)" by simp
      from value_occurrence [OF s(2) eq' e(2) len]
      have u2: "u2 = '' id='' @ dq @ i @ dq @ x @ '' ''" and w: "w = l @ dq @ a @ CHR ''>'' # r" by simp_all
      from s(2) have ql: "CHR 0x22 \<notin> set l" and ga: "CHR ''>'' \<notin> set a"
        by (simp_all add: head_ok_def no_angle_def)
      from e(3,4) name_no_dq(1) [OF n e(5)] have q: "CHR 0x22 \<notin> set (l1 @ m @ l2)" by simp
      from w have "(l1 @ m @ l2) @ CHR 0x22 # (u4 @ CHR ''>'' # s') = l @ CHR 0x22 # (a @ CHR ''>'' # r)"
        by (simp add: w_def dq_def)
      from split_unique [OF this q ql] have l: "l1 @ m @ l2 = l" and t: "u4 @ CHR ''>'' # s' = a @ CHR ''>'' # r"
        by simp_all
      from split_unique [OF t d(4) ga] have s': "s' = r" by simp
      from l e(5) have "includes_str (toUpperCase l) (toUpperCase n)"
        unfolding includes_ci_iff by blast
      then have "has_label n h" unfolding s(1) has_label_head [OF s(2) n] .
      with s' show ?R by simp
    qed
    with LD show ?thesis by simp
  qed
  with simple na show ?thesis unfolding tagged_def by blast
qed

lemma no_label_fits:
  assumes ni: "\<not> includes_str (toUpperCase u) (toUpperCase vlit)" and g: "CHR ''>'' \<notin> set u"
  shows "\<not> fits (seq (label_part n)) (u @ CHR ''>'' # rest) s'"
proof
  assume "fits (seq (label_part n)) (u @ CHR ''>'' # rest) s'"
  then obtain u0 e where ue: "u @ CHR ''>'' # rest = u0 @ e @ s'" "CHR ''>'' \<notin> set u0" "Ev n e"
    unfolding label_part_fits by blast
  from vlit_in [OF ue(1) ue(3) ue(2) g] obtain v y where "u = u0 @ v @ y" "map upc v = map upc vlit"
    by metis
  then have "includes_str (toUpperCase u) (toUpperCase vlit)"
    unfolding includes_ci_iff by blast
  with ni show False ..
qed

lemma elem_label_fits:
  assumes ok: "head_ok i x l a" and n: "is_name n"
    and fit: "fits (seq (label_part n)) (x @ '' value='' @ dq @ l @ dq @ a @ CHR ''>'' # rest) s'"
  shows "includes_str (toUpperCase l) (toUpperCase n)"
proof -
  define h2 where "h2 = x @ '' value='' @ dq @ l @ dq @ a"
  from ok have g: "CHR ''>'' \<notin> set h2" by (simp add: h2_def head_ok_def no_angle_def dq_def)
  from fit obtain u e where ue: "h2 @ CHR ''>'' # rest = u @ e @ s'" "CHR ''>'' \<notin> set u" "Ev n e"
    unfolding label_part_fits h2_def by auto
  from vlit_in [OF ue(1) ue(3) ue(2) g] obtain v w y where
    vw: "e = v @ w" "h2 = u @ v @ y" "map upc v = map upc vlit" "w @ s' = y @ CHR ''>'' # rest"
    by metis
  from ue(3) obtain v' l1 m l2 where d: "e = v' @ l1 @ m @ l2 @ dq" "map upc v' = map upc vlit"
    "CHR 0x22 \<notin> set l1" "CHR 0x22 \<notin> set l2" "map upc m = map upc n"
    unfolding Ev_def by blast
  from vw(3) d(2) have "length v = length v'" by (metis length_map)
  with vw(1) d(1) have w: "w = l1 @ m @ l2 @ dq" by simp
  define u0 where "u0 = '' id='' @ dq @ i @ dq @ u"
  have ch: "cell_head i x l a = u0 @ v @ y" by (simp add: cell_head_def u0_def vw(2) [symmetric] h2_def)
  then have eq: "cell_head i x l a @ (CHR ''>'' # rest) = u0 @ v @ (y @ CHR ''>'' # rest)" by simp
  from ch have len: "length u0 + length v \<le> length (cell_head i x l a)" by simp
  from value_occurrence [OF ok eq vw(3) len] have "y @ CHR ''>'' # rest = l @ dq @ a @ CHR ''>'' # rest"
    by simp
  with vw(4) w have 1: "(l1 @ m @ l2) @ CHR 0x22 # s' = l @ CHR 0x22 # (a @ CHR ''>'' # rest)"
    by (simp add: dq_def)
  from ok have ql: "CHR 0x22 \<notin> set l" by (simp add: head_ok_def)
  from d(3,4) name_no_dq(1) [OF n d(5)] have q: "CHR 0x22 \<notin> set (l1 @ m @ l2)" by simp
  from split_unique [OF 1 q ql] have "l = l1 @ m @ l2" by simp
  with d(5) show ?thesis unfolding includes_ci_iff by blast
qed

lemma elem_label_fits_conv:
  assumes inc: "includes_str (toUpperCase l) (toUpperCase n)" and ql: "CHR 0x22 \<notin> set l"
    and gx: "CHR ''>'' \<notin> set x"
  shows "fits (seq (label_part n)) (x @ '' value='' @ dq @ l @ dq @ a @ CHR ''>'' # rest)
           (a @ CHR ''>'' # rest)"
proof -
  from inc obtain l0 m y where l: "l = l0 @ m @ y" "map upc m = map upc n"
    unfolding includes_ci_iff by blast
  from ql l(1) have q: "CHR 0x22 \<notin> set l0" "CHR 0x22 \<notin> set y" by simp_all
  define e where "e = vlit @ l0 @ m @ y @ dq"
  from q l(2) have "Ev n e" unfolding Ev_def e_def by blast
  moreover have "x @ '' value='' @ dq @ l @ dq @ a @ CHR ''>'' # rest =
      (x @ '' '') @ e @ (a @ CHR ''>'' # rest)"
    by (simp add: e_def vlit_def l(1))
  moreover from gx have "CHR ''>'' \<notin> set (x @ '' '')" by simp
  ultimately show ?thesis unfolding label_part_fits by blast
qed

lemma dead_append: "dead n u \<Longrightarrow> dead n v \<Longrightarrow> dead n (u @ v)"
  unfolding dead_def
proof (intro allI impI)
  fix a b p rest
  assume u: "\<forall>a b p rest. u = a @ b \<longrightarrow> b \<noteq> [] \<longrightarrow> exec True (idRegex n) p (b @ rest) = None"
    and v: "\<forall>a b p rest. v = a @ b \<longrightarrow> b \<noteq> [] \<longrightarrow> exec True (idRegex n) p (b @ rest) = None"
    and ab: "u @ v = a @ b" and b: "b \<noteq> []"
  from ab show "exec True (idRegex n) p (b @ rest) = None"
  proof (cases rule: append_cases)
    case (1 us)
    show ?thesis
    proof (cases "us = []")
      case True
      with 1 have "v = [] @ b" by simp
      with v b show ?thesis by blast
    next
      case False
      from u 1(1) False have "exec True (idRegex n) p (us @ (v @ rest)) = None" by blast
      with 1(2) show ?thesis by auto
    qed
  next
    case (2 us)
    with v b show ?thesis by blast
  qed
qed

lemma dead_Nil: "dead n []"
  by (simp add: dead_def)

lemma safe_id_dead: "safe idlit u \<Longrightarrow> dead n u"
  unfolding dead_def
proof (intro allI impI)
  fix a b p rest
  assume "safe idlit u" "u = a @ b" "b \<noteq> []"
  from safe_dead [OF this] show "exec True (idRegex n) p (b @ rest) = None" by (rule id_not_here)
qed

lemma takeWhile_split:
  assumes "length (takeWhile P v) < length v"
  obtains y where "v = takeWhile P v @ hd (dropWhile P v) # y" "\<not> P (hd (dropWhile P v))"
proof -
  from assms have ne: "dropWhile P v \<noteq> []"
    by (metis append_Nil2 less_irrefl takeWhile_dropWhile_id)
  then have "dropWhile P v = hd (dropWhile P v) # tl (dropWhile P v)" by simp
  then have "v = takeWhile P v @ hd (dropWhile P v) # tl (dropWhile P v)"
    by (metis takeWhile_dropWhile_id)
  moreover from ne have "\<not> P (hd (dropWhile P v))" by (rule hd_dropWhile)
  ultimately show ?thesis by (rule that)
qed

lemma closed_id_dead:
  assumes "closed_id s"
  shows "exec True (idRegex n) p (s @ rest) = None"
proof -
  define r where "r = drop (length idlit) s"
  define q where "q = dropWhile (\<lambda>c. c \<noteq> CHR 0x22) r"
  define i where "i = takeWhile (\<lambda>c. c \<noteq> CHR 0x22) r"
  define v where "v = tl q"
  define u where "u = takeWhile (\<lambda>c. c \<noteq> CHR ''>'') v"
  from assms have st: "starts_ci idlit s" and q: "q \<noteq> []" and len: "length u < length v"
    and ni: "\<not> includes_str (toUpperCase u) (toUpperCase vlit)"
    unfolding closed_id_def Let_def r_def q_def v_def u_def by simp_all
  define w where "w = take (length idlit) s"
  from st have w: "map upc w = map upc idlit" and s: "s = w @ r"
    by (simp_all add: starts_ci_def w_def r_def)
  have ri: "r = i @ q" unfolding i_def q_def by simp
  from q have "\<not> (hd q \<noteq> CHR 0x22)" unfolding q_def by (rule hd_dropWhile)
  with q have qv: "q = CHR 0x22 # v" unfolding v_def by (cases q) auto
  have iq: "CHR 0x22 \<notin> set i" unfolding i_def by (auto dest: set_takeWhileD)
  from len obtain y where vy: "v = u @ hd (dropWhile (\<lambda>c. c \<noteq> CHR ''>'') v) # y"
    and "\<not> (hd (dropWhile (\<lambda>c. c \<noteq> CHR ''>'') v) \<noteq> CHR ''>'')"
    unfolding u_def by (rule takeWhile_split)
  then have vu: "v = u @ CHR ''>'' # y" by simp
  have gu: "CHR ''>'' \<notin> set u" unfolding u_def by (auto dest: set_takeWhileD)
  have no: "\<forall>s'. \<not> fits (seq (label_part n)) (u @ CHR ''>'' # (y @ rest)) s'"
    using no_label_fits [OF ni gu] by blast
  have "s @ rest = w @ i @ CHR 0x22 # (u @ CHR ''>'' # (y @ rest))"
    unfolding s ri qv vu by simp
  moreover have "exec True (idRegex n) p (w @ i @ CHR 0x22 # (u @ CHR ''>'' # (y @ rest))) = None"
    using iq w no by (rule id_exec_none)
  ultimately show ?thesis by simp
qed

lemma quiet_dead: "id_quiet u \<Longrightarrow> dead n u"
proof (induction u)
  case Nil
  show ?case by (rule dead_Nil)
next
  case (Cons x u)
  then have IH: "dead n u" and here: "closed_id (x # u) \<or> \<not> overlap idlit (x # u)" by simp_all
  show ?case unfolding dead_def
  proof (intro allI impI)
    fix a b p rest
    assume ab: "x # u = a @ b" and b: "b \<noteq> []"
    show "exec True (idRegex n) p (b @ rest) = None"
    proof (cases a)
      case Nil
      with ab have bx: "b = x # u" by simp
      from here show ?thesis
      proof
        assume "closed_id (x # u)"
        then show ?thesis unfolding bx by (rule closed_id_dead)
      next
        assume "\<not> overlap idlit (x # u)"
        with starts_ci_overlap [of idlit b rest] bx have "\<not> starts_ci idlit (b @ rest)" by blast
        then show ?thesis by (rule id_not_here)
      qed
    next
      case (Cons y ys)
      with ab have "u = ys @ b" by simp
      with IH b show ?thesis unfolding dead_def by blast
    qed
  qed
qed

lemma safe_id_consts:
  "safe idlit ''<mxCell ''" "safe idlit (tl idlit)" "safe idlit ''</mxCell>''" "safe idlit ''<mxCell''"
  by (simp_all add: idlit_def dq_def overlap_def upc_def lowers_def uppers_def)

lemma id_own_dead:
  assumes pre: "dead n pre" and post: "dead n (tl idlit @ i @ dq @ r0)"
    and i: "CHR 0x22 \<notin> set i"
    and no: "\<And>rest s'. \<not> fits (seq (label_part n)) (r0 @ rest) s'"
  shows "dead n (pre @ idlit @ i @ dq @ r0)"
  unfolding dead_def
proof (intro allI impI)
  fix a b p rest
  assume ab: "pre @ idlit @ i @ dq @ r0 = a @ b" and b: "b \<noteq> []"
  define post0 where "post0 = tl idlit @ i @ dq @ r0"
  have "idlit = CHR ''i'' # tl idlit" by (simp add: idlit_def)
  then have "idlit @ i @ dq @ r0 = CHR ''i'' # post0" unfolding post0_def by (metis append_Cons)
  with ab have ab': "pre @ CHR ''i'' # post0 = a @ b" by simp
  from ab' b show "exec True (idRegex n) p (b @ rest) = None"
  proof (cases rule: three_way)
    case (1 us)
    from pre 1(1,2) have "exec True (idRegex n) p (us @ ((CHR ''i'' # post0) @ rest)) = None"
      unfolding dead_def by blast
    with 1(3) show ?thesis by simp
  next
    case 2
    have "b @ rest = idlit @ i @ CHR 0x22 # (r0 @ rest)"
      unfolding 2(2) post0_def by (simp add: idlit_def dq_def)
    moreover have "exec True (idRegex n) p (idlit @ i @ CHR 0x22 # (r0 @ rest)) = None"
      using i _ no [of rest] by (intro id_exec_none) auto
    ultimately show ?thesis by simp
  next
    case (3 vs)
    with post b show ?thesis unfolding post0_def dead_def by blast
  qed
qed

lemma node_dead:
  assumes wf: "wf_node y" and n: "is_name n" and no: "\<not> labelled n y"
  shows "dead n (render_item (to_item y))"
proof (cases y)
  case (Markup g)
  with wf show ?thesis by (simp add: quiet_dead)
next
  case (Tag h)
  with wf have "dead n (h @ ''>'')" by (simp add: quiet_dead)
  from dead_append [OF safe_id_dead [OF safe_id_consts(4)] this] Tag show ?thesis by simp
next
  case (Plain h b)
  with wf have "dead n (h @ ''>'' @ b)" by (simp add: quiet_dead)
  from dead_append [OF this safe_id_dead [OF safe_id_consts(3)]]
  have "dead n (h @ ''>'' @ b @ ''</mxCell>'')" by simp
  from dead_append [OF safe_id_dead [OF safe_id_consts(4)] this] Plain show ?thesis by simp
next
  case (Elem i x l a b)
  define r1 where "r1 = x @ '' value='' @ dq @ l @ dq @ a @ ''>'' @ b"
  define r0 where "r0 = r1 @ ''</mxCell>''"
  from wf Elem have ok: "head_ok i x l a" and s: "id_quiet (i @ dq @ r1)"
    by (simp_all add: r1_def)
  from ok have i: "CHR 0x22 \<notin> set i" by (simp add: head_ok_def)
  from no Elem have nl: "\<not> includes_str (toUpperCase l) (toUpperCase n)" by simp
  have no': "\<not> fits (seq (label_part n)) (r0 @ rest) s'" for rest s'
  proof
    assume "fits (seq (label_part n)) (r0 @ rest) s'"
    then have "fits (seq (label_part n))
        (x @ '' value='' @ dq @ l @ dq @ a @ CHR ''>'' # (b @ ''</mxCell>'' @ rest)) s'"
      by (simp add: r0_def r1_def)
    from elem_label_fits [OF ok n this] nl show False by simp
  qed
  from dead_append [OF quiet_dead [OF s] safe_id_dead [OF safe_id_consts(3)]]
  have "dead n (i @ dq @ r0)" by (simp add: r0_def)
  from dead_append [OF safe_id_dead [OF safe_id_consts(2)] this]
  have post: "dead n (tl idlit @ i @ dq @ r0)" .
  from id_own_dead [OF safe_id_dead [OF safe_id_consts(1)] post i no']
  have "dead n (''<mxCell '' @ idlit @ i @ dq @ r0)" .
  moreover have "render_item (to_item y) = ''<mxCell '' @ idlit @ i @ dq @ r0"
    by (simp add: Elem cell_head_def idlit_def r0_def r1_def)
  ultimately show ?thesis by simp
qed

lemma doc_text_Cons: "doc_text (y # ns) = render_item (to_item y) @ doc_text ns"
  by (simp add: doc_text_def render_def)

lemma doc_text_append: "doc_text (xs @ ys) = doc_text xs @ doc_text ys"
  by (simp add: doc_text_def render_def)

lemma nodes_search:
  assumes n: "is_name n"
  shows "list_all wf_node ns \<Longrightarrow> \<forall>y \<in> set ns. \<not> labelled n y \<Longrightarrow>
         \<exists>p'. search True (idRegex n) p (doc_text ns @ tail) = search True (idRegex n) p' tail"
proof (induction ns arbitrary: p)
  case Nil
  show ?case by (auto simp: doc_text_def render_def)
next
  case (Cons y ns)
  from Cons.prems have wf: "wf_node y" and no: "\<not> labelled n y" by simp_all
  define u where "u = render_item (to_item y)"
  have "\<forall>a b p'. u = a @ b \<longrightarrow> b \<noteq> [] \<longrightarrow>
          exec True (idRegex n) p' (b @ (doc_text ns @ tail)) = None"
    using node_dead [OF wf n no] unfolding u_def dead_def by blast
  from search_dead [OF this]
  have 1: "search True (idRegex n) p (u @ (doc_text ns @ tail)) =
           search True (idRegex n) (if u = [] then p else Some (last u)) (doc_text ns @ tail)" .
  from Cons.prems have "list_all wf_node ns" "\<forall>y \<in> set ns. \<not> labelled n y" by simp_all
  from Cons.IH [OF this] obtain p' where
    "search True (idRegex n) (if u = [] then p else Some (last u)) (doc_text ns @ tail) =
     search True (idRegex n) p' tail" by blast
  with 1 show ?case unfolding doc_text_Cons u_def [symmetric] by auto
qed

lemma elem_search:
  assumes wf: "wf_node (Elem i x l a b)" and lab: "labelled n (Elem i x l a b)"
  shows "\<exists>m. search True (idRegex n) p (render_item (to_item (Elem i x l a b)) @ tail) =
              Some (m, [(1, i)])"
proof -
  define r where "r = x @ '' value='' @ dq @ l @ dq @ a @ CHR ''>'' # (b @ ''</mxCell>'' @ tail)"
  define pre where "pre = ''<mxCell ''"
  from wf have ok: "head_ok i x l a" by simp
  then have i: "CHR 0x22 \<notin> set i" and ql: "CHR 0x22 \<notin> set l" and gx: "CHR ''>'' \<notin> set x"
    by (simp_all add: head_ok_def no_angle_def)
  from lab have "includes_str (toUpperCase l) (toUpperCase n)" by simp
  from elem_label_fits_conv [OF this ql gx]
  have "fits (seq (label_part n)) r (a @ CHR ''>'' # (b @ ''</mxCell>'' @ tail))" unfolding r_def .
  then have "\<exists>m. exec True (idRegex n) (if pre = [] then p else Some (last pre))
                 (idlit @ i @ CHR 0x22 # r) = Some (m, [(1, i)])"
    using i by (intro id_exec_some) simp_all
  then obtain m where
    m: "exec True (idRegex n) (if pre = [] then p else Some (last pre))
          (idlit @ i @ CHR 0x22 # r) = Some (m, [(1, i)])" by blast
  have eq: "render_item (to_item (Elem i x l a b)) @ tail = pre @ (idlit @ i @ CHR 0x22 # r)"
    by (simp add: cell_head_def idlit_def r_def pre_def dq_def)
  have "\<forall>a b p'. pre = a @ b \<longrightarrow> b \<noteq> [] \<longrightarrow>
          exec True (idRegex n) p' (b @ (idlit @ i @ CHR 0x22 # r)) = None"
  proof (intro allI impI)
    fix a b p'
    assume "pre = a @ b" "b \<noteq> []"
    from safe_dead [OF safe_id_consts(1) this [unfolded pre_def]]
    show "exec True (idRegex n) p' (b @ (idlit @ i @ CHR 0x22 # r)) = None" by (rule id_not_here)
  qed
  from search_dead [OF this] m show ?thesis unfolding eq by (simp add: search_hit)
qed

lemma js_first:
  assumes n: "is_name n" and wf: "list_all wf_node ns"
    and f: "find (labelled n) ns = Some (Elem i x l a b)"
  shows "\<exists>m. js_match True (idRegex n) (doc_text ns) = Some (m, [(1, i)])"
proof -
  from find_split [OF f] obtain pre post where
    ns: "ns = pre @ Elem i x l a b # post" and lab: "labelled n (Elem i x l a b)"
    and no: "\<forall>y \<in> set pre. \<not> labelled n y" by blast
  from wf ns have wp: "list_all wf_node pre" and we: "wf_node (Elem i x l a b)" by simp_all
  define tail where "tail = render_item (to_item (Elem i x l a b)) @ doc_text post"
  have d: "doc_text ns = doc_text pre @ tail"
    unfolding ns doc_text_append doc_text_Cons tail_def ..
  from nodes_search [OF n wp no, of None tail] obtain p' where
    1: "search True (idRegex n) None (doc_text pre @ tail) = search True (idRegex n) p' tail"
    by blast
  from elem_search [OF we lab, of p' "doc_text post"] obtain m where
    "search True (idRegex n) p' tail = Some (m, [(1, i)])" unfolding tail_def by blast
  with 1 show ?thesis unfolding js_match_def d by simp
qed

lemma cell_head_no_angle: "head_ok i x l a \<Longrightarrow> no_angle (cell_head i x l a)"
  by (simp add: head_ok_def cell_head_def no_angle_def dq_def)

lemma hit_label:
  assumes "wf_node y" "is_name n"
  shows "hit (has_label n) (to_item y) = labelled n y"
proof (cases y)
  case (Elem i x l a b)
  with assms show ?thesis by (simp add: has_label_head)
next
  case (Plain h b)
  with assms(1) have "\<not> includes_str (toUpperCase h) (toUpperCase vlit)" by simp
  with has_label_includes have "\<not> has_label n h" by blast
  with Plain show ?thesis by simp
qed simp_all

lemma hit_refs: "hit (refs j) (to_item y) = refers j y"
  by (cases y) simp_all

lemma comp_wf:
  assumes wf: "wf_node y" and n: "is_name n"
  shows "gwf comp_head (has_label n) (to_item y)"
proof (cases y)
  case (Markup g)
  with wf show ?thesis by simp
next
  case (Tag h)
  with wf have 1: "no_angle h"
    and 2: "\<not> includes_str (toUpperCase h) (toUpperCase vlit)" by simp_all
  from 2 has_label_includes have "\<not> has_label n h" by blast
  with 1 2 Tag show ?thesis by (simp add: comp_head_def)
next
  case (Plain h b)
  with wf have "no_angle h" "\<not> includes_str (toUpperCase h) (toUpperCase vlit)"
    "safe ''<mxCell'' b" "safe ''</mxCell>'' b" by simp_all
  with Plain show ?thesis by (simp add: comp_head_def)
next
  case (Elem i x l a b)
  with wf have ok: "head_ok i x l a" and s: "safe ''<mxCell'' b" "safe ''</mxCell>'' b" by simp_all
  from ok cell_head_no_angle have "comp_head (cell_head i x l a)" unfolding comp_head_def by blast
  with s Elem show ?thesis by simp
qed

lemma conn_wf:
  assumes wf: "wf_node y"
  shows "gwf no_angle (refs j) (to_item y)"
proof (cases y)
  case (Markup g)
  with wf show ?thesis by simp
next
  case (Tag h)
  with wf refs_needs [of j h] show ?thesis by auto
next
  case (Plain h b)
  with wf show ?thesis by simp
next
  case (Elem i x l a b)
  with wf cell_head_no_angle show ?thesis by auto
qed

lemma filter_to_item:
  assumes "\<forall>x \<in> set ns. P (to_item x) = Q x"
  shows "filter P (map to_item ns) = map to_item (filter Q ns)"
  using assms by (induction ns) auto

lemma remove_result:
  assumes n: "is_name n" and wf: "list_all wf_node ns"
    and f: "find (labelled n) ns = Some (Elem i x l a b)" and pl: "plain i"
  shows "removeComponent syn (doc_text ns) n =
           (True, doc_text (filter (\<lambda>x. \<not> labelled n x \<and> \<not> refers i x) ns))"
proof -
  define its where "its = map to_item ns"
  define ns1 where "ns1 = filter (\<lambda>x. \<not> labelled n x) ns"
  define ms where "ms = map render_item (filter (hit (has_label n)) its)"
  from find_split [OF f] have el: "Elem i x l a b \<in> set ns" and lab: "labelled n (Elem i x l a b)"
    by auto
  from wf el have we: "wf_node (Elem i x l a b)" unfolding list_all_iff by blast
  then have ok: "head_ok i x l a" by simp
  from ok have gt: "CHR ''>'' \<notin> set i" by (simp add: head_ok_def no_angle_def)
  have g1: "list_all (gwf comp_head (has_label n)) its"
    using wf comp_wf [OF _ n] by (simp add: list_all_iff its_def)
  note t1 = component_tagged [OF n]
  have M: "match_all True (componentRegex n) (doc_text ns) = ms"
    unfolding componentRegex_tag doc_text_def its_def [symmetric] ms_def
    by (rule tag_match_all [OF t1 g1])
  have hl: "\<forall>x \<in> set ns. hit (has_label n) (to_item x) = labelled n x"
    using wf hit_label [OF _ n] by (simp add: list_all_iff)
  have "filter (hit (has_label n)) its = map to_item (filter (labelled n) ns)"
    unfolding its_def using hl by (rule filter_to_item)
  moreover from el lab have "\<exists>x \<in> set ns. labelled n x" by (rule bexI [rotated])
  then have "filter (labelled n) ns \<noteq> []" unfolding filter_empty_conv by blast
  ultimately have ne: "ms \<noteq> []" by (simp add: ms_def)
  have "\<forall>x \<in> set ns. (\<not> hit (has_label n) (to_item x)) = (\<not> labelled n x)" using hl by simp
  then have f1: "filter (\<lambda>it. \<not> hit (has_label n) it) its = map to_item ns1"
    unfolding its_def ns1_def by (rule filter_to_item)
  have R: "remove_each ms (doc_text ns) = doc_text ns1"
    unfolding ms_def doc_text_def its_def [symmetric] f1 [symmetric]
    by (rule remove_each_hits [OF t1 g1 refl])
  from js_first [OF n wf f] obtain m0 where
    J: "js_match True (idRegex n) (doc_text ns) = Some (m0, [(1, i)])" by blast
  have G: "grp_text [(1, i)] 1 = i" by (simp add: grp_text_def)
  have g2: "list_all (gwf no_angle (refs i)) (map to_item ns1)"
    using wf conn_wf by (simp add: list_all_iff ns1_def)
  have "\<forall>x \<in> set ns1. (\<not> hit (refs i) (to_item x)) = (\<not> refers i x)" by (simp add: hit_refs)
  then have f2: "filter (\<lambda>it. \<not> hit (refs i) it) (map to_item ns1) =
                 map to_item (filter (\<lambda>x. \<not> refers i x) ns1)"
    by (rule filter_to_item)
  have C: "replace_all True (connectionRegex i) [] (doc_text ns1) =
           doc_text (filter (\<lambda>x. \<not> refers i x) ns1)"
    unfolding connectionRegex_tag doc_text_def f2 [symmetric]
    by (rule tag_replace_all [OF connection_tagged [OF gt] g2])
  have F: "filter (\<lambda>x. \<not> refers i x) ns1 = filter (\<lambda>x. \<not> labelled n x \<and> \<not> refers i x) ns"
    unfolding ns1_def by simp
  show ?thesis unfolding removeComponent_def Let_def M R J using ne G pl C F by simp
qed

lemma no_matches_left:
  assumes n: "is_name n" and wf: "list_all wf_node ns" and gt: "CHR ''>'' \<notin> set i"
    and out: "out = filter (\<lambda>x. \<not> labelled n x \<and> \<not> refers i x) ns"
  shows "match_all True (componentRegex n) (doc_text out) = []"
    and "match_all True (connectionRegex i) (doc_text out) = []"
proof -
  from wf have wo: "list_all wf_node out" by (simp add: list_all_iff out)
  have g1: "list_all (gwf comp_head (has_label n)) (map to_item out)"
    using wo comp_wf [OF _ n] by (simp add: list_all_iff)
  have g2: "list_all (gwf no_angle (refs i)) (map to_item out)"
    using wo conn_wf by (simp add: list_all_iff)
  have "\<forall>x \<in> set out. hit (has_label n) (to_item x) = labelled n x"
    using wo hit_label [OF _ n] by (simp add: list_all_iff)
  then have "filter (hit (has_label n)) (map to_item out) = map to_item (filter (labelled n) out)"
    by (rule filter_to_item)
  also have "filter (labelled n) out = []" unfolding out filter_empty_conv by simp
  finally have e1: "filter (hit (has_label n)) (map to_item out) = []" by simp
  have "\<forall>x \<in> set out. hit (refs i) (to_item x) = refers i x" by (simp add: hit_refs)
  then have "filter (hit (refs i)) (map to_item out) = map to_item (filter (refers i) out)"
    by (rule filter_to_item)
  also have "filter (refers i) out = []" unfolding out filter_empty_conv by simp
  finally have e2: "filter (hit (refs i)) (map to_item out) = []" by simp
  show "match_all True (componentRegex n) (doc_text out) = []"
    unfolding componentRegex_tag doc_text_def
    using tag_match_all [OF component_tagged [OF n] g1] e1 by simp
  show "match_all True (connectionRegex i) (doc_text out) = []"
    unfolding connectionRegex_tag doc_text_def
    using tag_match_all [OF connection_tagged [OF gt] g2] e2 by simp
qed

lemma first_id_no_gt:
  assumes "list_all wf_node ns" "find (labelled n) ns = Some (Elem i x l a b)"
  shows "CHR ''>'' \<notin> set i"
proof -
  from find_split [OF assms(2)] have "Elem i x l a b \<in> set ns" by auto
  with assms(1) have "wf_node (Elem i x l a b)" unfolding list_all_iff by blast
  then show ?thesis by (simp add: head_ok_def no_angle_def)
qed

text \<open>
  Claim C2, amended. Remove compares labels without regard to letter case, and it finds
  the identifier of a node only when the identifier stands in front of the label in the
  tag. On a well-formed document whose labelled cell elements are written
  \<^verbatim>\<open><mxCell id="i"x value="l"a>b</mxCell>\<close>, for a name as \<^verbatim>\<open>(\w+)\<close> captures it: when some cell
  element has a label that holds the name and the identifier \<open>i\<close> of the first of them has
  no character of the pattern syntax, Remove succeeds and returns the document without
  the cell elements whose label holds the name (letter case ignored) and without the
  cell elements whose attribute text holds \<^verbatim>\<open>source="i"\<close> or \<^verbatim>\<open>target="i"\<close>; in the result
  neither the pattern for the name nor the pattern for \<open>i\<close> matches anywhere.
\<close>

theorem remove_labelled_cells:
  assumes "is_name n" and "list_all wf_node ns"
    and "find (labelled n) ns = Some (Elem i x l a b)" and "plain i"
  shows "removeComponent syn (doc_text ns) n =
           (True, doc_text (filter (\<lambda>y. \<not> labelled n y \<and> \<not> refers i y) ns)) \<and>
         match_all True (componentRegex n)
           (doc_text (filter (\<lambda>y. \<not> labelled n y \<and> \<not> refers i y) ns)) = [] \<and>
         match_all True (connectionRegex i)
           (doc_text (filter (\<lambda>y. \<not> labelled n y \<and> \<not> refers i y) ns)) = []"
  using remove_result [OF assms]
    no_matches_left [OF assms(1,2) first_id_no_gt [OF assms(2,3)] refl]
  by simp

theorem remove_labelled_cells_witness:
  "is_name ''GPU'' \<and> list_all wf_node sample_nodes \<and>
   find (labelled ''GPU'') sample_nodes =
     Some (Elem ''2'' ('' parent='' @ dq @ ''1'' @ dq) ''GPU'' vertex_attr ''<mxGeometry/>'') \<and>
   plain ''2'' \<and>
   removeComponent (\<lambda>t. None) (doc_text sample_nodes) ''GPU'' = (True, doc_text sample_removed) \<and>
   match_all True (componentRegex ''GPU'') (doc_text sample_removed) = [] \<and>
   match_all True (connectionRegex ''2'') (doc_text sample_removed) = []"
proof -
  have h1: "is_name ''GPU''" by code_simp
  have h2: "list_all wf_node sample_nodes" by code_simp
  have h3: "find (labelled ''GPU'') sample_nodes =
     Some (Elem ''2'' ('' parent='' @ dq @ ''1'' @ dq) ''GPU'' vertex_attr ''<mxGeometry/>'')"
    by code_simp
  have h4: "plain ''2''" by code_simp
  have e: "filter (\<lambda>y. \<not> labelled ''GPU'' y \<and> \<not> refers ''2'' y) sample_nodes = sample_removed"
    by code_simp
  from remove_labelled_cells [OF h1 h2 h3 h4, of "\<lambda>t. None"] h1 h2 h3 h4 show ?thesis
    unfolding e by simp
qed

text \<open>
  The claim as stated fails in two ways. A cell element whose label holds the name in
  another letter case only is deleted as well. And when the label stands in front of the
  identifier in the tag of the node, Remove deletes the node but finds no identifier: the
  edge that has the node as its source stays.
\<close>

theorem remove_ignores_case_counterexample:
  "removeComponent (\<lambda>t. None) (doc_text mixed_nodes) ''GPU'' = (True, doc_text mixed_removed) \<and>
   \<not> includes_str ''gpu'' ''GPU'' \<and>
   removeComponent (\<lambda>t. None) label_first_doc ''GPU'' =
     (True, ''<mxGraphModel><root>'' @ edge_to_2 @ ''</root></mxGraphModel>'')"
  by code_simp

section \<open>Text behind the last closing cell tag\<close>

lemma exec_ends_literal:
  assumes "exec True (seq (front @ [lit t])) p s = Some (m, c)"
  shows "\<exists>a e s'. m = a @ e \<and> map upc e = map upc t \<and> s = m @ s'"
proof -
  from assms obtain p2 s2 where
    r: "rmatch True (seq front) (rmatch True (seq [lit t]) Some) (p, s, []) = Some (p2, s2, c)"
    and m: "m = take (length s - length s2) s"
    by (auto simp: exec_def rmatch_seq_append split: option.splits)
  from rmatch_Some [OF r] obtain p1 s1 c1 where
    1: "(p1, s1, c1) \<in> ends True (seq front) (p, s, [])"
    and 2: "rmatch True (seq [lit t]) Some (p1, s1, c1) = Some (p2, s2, c)" by auto
  from ends_suffix [OF 1] obtain u where u: "s = u @ s1" by blast
  from 2 have "strip_lit True t p1 s1 = Some (p2, s2)"
    by (auto simp: rmatch_lit split: option.splits)
  then obtain v where v: "s1 = v @ s2" "map upc v = map upc t"
    unfolding strip_lit_Some by blast
  from u v m have "m = u @ v" "s = m @ s2" by simp_all
  with v(2) show ?thesis by blast
qed

lemma close_tail_no_lt: "CHR ''<'' \<notin> set (tl (map upc ''</mxCell>''))"
  by (simp add: upc_def lowers_def uppers_def)

lemma no_straddle:
  assumes pre: "b @ t = m @ s'" and m: "m = a @ e" and e: "map upc e = map upc ''</mxCell>''"
    and t: "\<not> includes_str (toUpperCase t) ''</MXCELL>''" and lt: "starts_with ''<'' t"
  shows "length m \<le> length b"
proof (rule ccontr)
  assume "\<not> length m \<le> length b"
  then have len: "length b < length m" by simp
  from pre obtain t1 where t1: "m = b @ t1" "t = t1 @ s'"
  proof (cases rule: append_cases)
    case (1 us)
    with len show ?thesis by simp
  next
    case (2 us)
    from 2 have "m = b @ us" "t = us @ s'" by simp_all
    then show ?thesis by (rule that)
  qed
  from len t1 have ne: "t1 \<noteq> []" by auto
  from lt obtain t' where "t = CHR ''<'' # t'" by (cases t) auto
  with t1(2) ne have hd: "hd t1 = CHR ''<''" by (cases t1) auto
  from m t1(1) have "a @ e = b @ t1" by simp
  then show False
  proof (cases rule: append_cases)
    case (1 us)
    then have "t = us @ e @ s'" using t1(2) by simp
    with e have "includes_str (toUpperCase t) (toUpperCase ''</mxCell>'')"
      unfolding includes_ci_iff by blast
    with t show False unfolding upper_close by simp
  next
    case (2 us)
    show False
    proof (cases us)
      case Nil
      with 2 have "t = [] @ e @ s'" using t1(2) by simp
      with e have "includes_str (toUpperCase t) (toUpperCase ''</mxCell>'')"
        unfolding includes_ci_iff by blast
      with t show False unfolding upper_close by simp
    next
      case (Cons y ys)
      define U where "U = map upc ''</mxCell>''"
      from 2(2) e have "map upc us @ map upc t1 = U" unfolding U_def by (metis map_append)
      then have d: "map upc t1 = drop (length us) U"
        by (metis append_eq_conv_conj length_map)
      from Cons have "1 \<le> length us" by simp
      then have "set (drop (length us) U) \<subseteq> set (drop 1 U)"
        by (rule set_drop_subset_set_drop)
      also have "drop 1 U = tl U" by (simp add: drop_Suc)
      finally have sub: "set (map upc t1) \<subseteq> set (tl U)" unfolding d .
      from ne hd have "upc (CHR ''<'') \<in> set (map upc t1)" by (cases t1) auto
      moreover have "upc (CHR ''<'') = CHR ''<''" using upc_lt [of "CHR ''<''"] by simp
      ultimately have "CHR ''<'' \<in> set (tl (map upc ''</mxCell>''))"
        using sub unfolding U_def by auto
      with close_tail_no_lt show False by simp
    qed
  qed
qed

lemma hits_exec:
  "m \<in> set (hits (gscan ic r k p s)) \<Longrightarrow> \<exists>p' b c. exec ic r p' b = Some (m, c)"
proof (induction ic r k p s rule: gscan.induct)
  case (1 ic r k p)
  then obtain c where "exec ic r p [] = Some (m, c)" by (auto split: if_splits option.splits)
  then show ?case by blast
next
  case (2 ic r k p x xs)
  show ?case
  proof (cases "k = 0")
    case False
    with 2 show ?thesis by simp
  next
    case True
    show ?thesis
    proof (cases "exec ic r p (x # xs)")
      case None
      with 2 True show ?thesis by simp
    next
      case (Some mc)
      obtain m0 c0 where mc: "mc = (m0, c0)" by (cases mc)
      show ?thesis
      proof (cases "m = m0")
        case True
        with Some mc show ?thesis by blast
      next
        case False
        with 2 \<open>k = 0\<close> Some mc show ?thesis by (cases "m0 = []") auto
      qed
    qed
  qed
qed

lemma gscan_keep_tail:
  assumes dead: "\<And>a d p'. t = a @ d \<Longrightarrow> exec ic r p' d = None"
  shows "(\<And>a b p' m c. pre = a @ b \<Longrightarrow> exec ic r p' (b @ t) = Some (m, c) \<Longrightarrow>
            m \<noteq> [] \<and> length m \<le> length b) \<Longrightarrow>
         k \<le> length pre \<Longrightarrow> \<exists>ps. gscan ic r k p (pre @ t) = ps @ map Txt t"
proof (induction pre arbitrary: k p)
  case Nil
  then have "k = 0" by simp
  moreover have "gscan ic r 0 p t = map Txt t" by (rule gscan_no_match) (rule dead)
  ultimately show ?case by simp
next
  case (Cons x pre)
  have hit': "m \<noteq> [] \<and> length m \<le> length b"
    if "pre = a @ b" "exec ic r p' (b @ t) = Some (m, c)" for a b p' m c
  proof -
    from that(1) have "x # pre = (x # a) @ b" by simp
    from Cons.prems(1) [OF this that(2)] show ?thesis .
  qed
  have IH: "\<exists>ps. gscan ic r k' p0 (pre @ t) = ps @ map Txt t" if "k' \<le> length pre" for k' p0
  proof (rule Cons.IH)
    fix a b p' m c
    assume "pre = a @ b" "exec ic r p' (b @ t) = Some (m, c)"
    then show "m \<noteq> [] \<and> length m \<le> length b" by (rule hit')
  next
    from that show "k' \<le> length pre" .
  qed
  show ?case
  proof (cases "k = 0")
    case False
    with Cons.prems(2) have "k - 1 \<le> length pre" by simp
    from IH [OF this, of "Some x"] obtain ps where
      "gscan ic r (k - 1) (Some x) (pre @ t) = ps @ map Txt t" by blast
    with False show ?thesis by simp
  next
    case True
    show ?thesis
    proof (cases "exec ic r p ((x # pre) @ t)")
      case None
      from IH [of 0 "Some x"] obtain ps where
        "gscan ic r 0 (Some x) (pre @ t) = ps @ map Txt t" by auto
      with None True have "gscan ic r k p ((x # pre) @ t) = (Txt x # ps) @ map Txt t" by simp
      then show ?thesis by blast
    next
      case (Some mc)
      obtain m c where mc: "mc = (m, c)" by (cases mc)
      have "x # pre = [] @ (x # pre)" by simp
      from Cons.prems(1) [OF this Some [unfolded mc]]
      have m: "m \<noteq> []" "length m \<le> length (x # pre)" by simp_all
      then have "length m - 1 \<le> length pre" by simp
      from IH [OF this, of "Some x"] obtain ps where
        "gscan ic r (length m - 1) (Some x) (pre @ t) = ps @ map Txt t" by blast
      with Some mc True m(1) have "gscan ic r k p ((x # pre) @ t) = (Hit m c # ps) @ map Txt t"
        by simp
      then show ?thesis by blast
    qed
  qed
qed

lemma includes_suffix:
  assumes "includes_str (toUpperCase d) w"
  shows "includes_str (toUpperCase (a @ d)) w"
proof -
  from assms obtain x y where "toUpperCase d = x @ w @ y" unfolding includes_str_iff by blast
  then have "toUpperCase (a @ d) = (toUpperCase a @ x) @ w @ y" by (simp add: toUpperCase_def)
  then show ?thesis unfolding includes_str_iff by blast
qed

lemma closing_keep_tail:
  assumes t: "\<not> includes_str (toUpperCase t) ''</MXCELL>''" and lt: "starts_with ''<'' t"
  shows "\<exists>ps. gscan True (seq (front @ [lit ''</mxCell>''])) 0 p (pre @ t) = ps @ map Txt t"
proof (rule gscan_keep_tail)
  fix a d p'
  assume td: "t = a @ d"
  show "exec True (seq (front @ [lit ''</mxCell>''])) p' d = None"
  proof (rule ccontr)
    assume "exec True (seq (front @ [lit ''</mxCell>''])) p' d \<noteq> None"
    from exec_needs_literal [OF this] have "includes_str (toUpperCase d) ''</MXCELL>''"
      unfolding upper_close .
    from includes_suffix [OF this, of a] t td show False by simp
  qed
next
  fix a b p' m c
  assume "pre = a @ b"
    and e: "exec True (seq (front @ [lit ''</mxCell>''])) p' (b @ t) = Some (m, c)"
  from exec_ends_literal [OF e] obtain a0 e0 s' where
    m: "m = a0 @ e0" "map upc e0 = map upc ''</mxCell>''" "b @ t = m @ s'" by blast
  from m(2) have "length e0 = length ''</mxCell>''" by (metis length_map)
  with m(1) have "m \<noteq> []" by auto
  moreover from no_straddle [OF m(3) m(1) m(2) t lt] have "length m \<le> length b" .
  ultimately show "m \<noteq> [] \<and> length m \<le> length b" by simp
qed simp

lemma replace_all_keep_tail:
  assumes "\<not> includes_str (toUpperCase t) ''</MXCELL>''" "starts_with ''<'' t"
  shows "\<exists>pre'. replace_all True (seq (front @ [lit ''</mxCell>''])) rep (pre @ t) = pre' @ t"
proof -
  from closing_keep_tail [OF assms, of front None pre] obtain ps where
    "gscan True (seq (front @ [lit ''</mxCell>''])) 0 None (pre @ t) = ps @ map Txt t" by blast
  then have "replace_all True (seq (front @ [lit ''</mxCell>''])) rep (pre @ t) = subst rep ps @ t"
    by (simp add: replace_all_def subst_append subst_Txt)
  then show ?thesis by blast
qed

lemma match_all_closes:
  assumes "m \<in> set (match_all True (seq (front @ [lit ''</mxCell>''])) s)"
  shows "\<exists>a e. m = a @ e \<and> map upc e = map upc ''</mxCell>''"
proof -
  from assms hits_exec obtain p' b c where
    "exec True (seq (front @ [lit ''</mxCell>''])) p' b = Some (m, c)"
    unfolding match_all_def by blast
  from exec_ends_literal [OF this] show ?thesis by blast
qed

lemma ends_with_iff: "ends_with x t \<longleftrightarrow> (\<exists>a. x = a @ t)"
proof
  assume "ends_with x t"
  then have "x = take (length x - length t) x @ t" unfolding ends_with_def
    by (metis append_take_drop_id)
  then show "\<exists>a. x = a @ t" ..
next
  assume "\<exists>a. x = a @ t"
  then show "ends_with x t" by (auto simp: ends_with_def)
qed

lemma closes_iff: "closes m \<longleftrightarrow> (\<exists>a e. m = a @ e \<and> map upc e = map upc ''</mxCell>'')"
proof
  assume "closes m"
  then obtain a where a: "map upc m = a @ ''</MXCELL>''"
    unfolding closes_def ends_with_iff toUpperCase_def by blast
  define k where "k = length m - 9"
  from a have "length (map upc m) = length a + 9" by simp
  then have len: "length m = length a + 9" by simp
  have m: "m = take k m @ drop k m" by simp
  from a len have "map upc (drop k m) = ''</MXCELL>''"
    unfolding k_def by (simp add: drop_map [symmetric])
  then have "map upc (drop k m) = map upc ''</mxCell>''"
    using upper_close by (simp add: toUpperCase_def)
  with m show "\<exists>a e. m = a @ e \<and> map upc e = map upc ''</mxCell>''" by blast
next
  assume "\<exists>a e. m = a @ e \<and> map upc e = map upc ''</mxCell>''"
  then obtain a e where "m = a @ e" "map upc e = map upc ''</mxCell>''" by blast
  then have "toUpperCase m = toUpperCase a @ ''</MXCELL>''"
    using upper_close by (simp add: toUpperCase_def)
  then show "closes m" unfolding closes_def ends_with_iff by blast
qed

lemma replace_first_absent: "\<not> includes_str s m \<Longrightarrow> replace_first s m r = s"
  by (induction s) auto

lemma closes_absent:
  assumes m: "closes m" and t: "\<not> includes_str (toUpperCase t) ''</MXCELL>''"
  shows "\<not> includes_str t m"
proof
  assume "includes_str t m"
  then obtain x y where "t = x @ m @ y" unfolding includes_str_iff by blast
  moreover from m obtain a e where "m = a @ e" "map upc e = map upc ''</mxCell>''"
    unfolding closes_iff by blast
  ultimately have "t = (x @ a) @ e @ y \<and> map upc e = map upc ''</mxCell>''" by simp
  then have "includes_str (toUpperCase t) (toUpperCase ''</mxCell>'')"
    unfolding includes_ci_iff by blast
  with t show False unfolding upper_close by simp
qed

lemma replace_first_keep_tail:
  assumes m: "closes m" and t: "\<not> includes_str (toUpperCase t) ''</MXCELL>''"
    and lt: "starts_with ''<'' t"
  shows "\<exists>pre'. replace_first (pre @ t) m r = pre' @ t"
proof (induction pre)
  case Nil
  from replace_first_absent [OF closes_absent [OF m t], of r] show ?case by simp
next
  case (Cons x pre)
  show ?case
  proof (cases "starts_with m ((x # pre) @ t)")
    case True
    then obtain s' where s': "(x # pre) @ t = m @ s'" unfolding starts_with_iff by blast
    from m obtain a e where ae: "m = a @ e" "map upc e = map upc ''</mxCell>''"
      unfolding closes_iff by blast
    from no_straddle [OF s' ae t lt] have "length m \<le> length (x # pre)" .
    then have "drop (length m) ((x # pre) @ t) = drop (length m) (x # pre) @ t"
      by (simp only: drop_append diff_is_0_eq [THEN iffD2] drop_0)
    moreover from True have "replace_first ((x # pre) @ t) m r =
        r @ drop (length m) ((x # pre) @ t)" by simp
    ultimately have "replace_first ((x # pre) @ t) m r = (r @ drop (length m) (x # pre)) @ t"
      by simp
    then show ?thesis by blast
  next
    case False
    from Cons obtain pre' where "replace_first (pre @ t) m r = pre' @ t" by blast
    with False have "replace_first ((x # pre) @ t) m r = (x # pre') @ t" by simp
    then show ?thesis by blast
  qed
qed

lemma remove_each_keep_tail:
  assumes t: "\<not> includes_str (toUpperCase t) ''</MXCELL>''" and lt: "starts_with ''<'' t"
  shows "\<forall>m \<in> set ms. closes m \<Longrightarrow> \<exists>pre'. remove_each ms (pre @ t) = pre' @ t"
proof (induction ms arbitrary: pre)
  case Nil
  show ?case by simp
next
  case (Cons m ms)
  then have "closes m" by simp
  from replace_first_keep_tail [OF this t lt, of pre "[]"] obtain p1 where
    "replace_first (pre @ t) m [] = p1 @ t" by blast
  moreover from Cons have "\<exists>pre'. remove_each ms (p1 @ t) = pre' @ t" by simp
  ultimately show ?case by simp
qed

lemma remove_between_keep_tail:
  assumes t: "\<not> includes_str (toUpperCase t) ''</MXCELL>''" and lt: "starts_with ''<'' t"
  shows "\<forall>m \<in> set cs. closes m \<Longrightarrow>
         \<exists>pre' k. remove_between c1 c2 cs (pre @ t, n) = (pre' @ t, k)"
proof (induction cs arbitrary: pre n)
  case Nil
  show ?case by simp
next
  case (Cons m cs)
  then have "closes m" by simp
  from replace_first_keep_tail [OF this t lt, of pre "[]"] obtain p1 where
    p1: "replace_first (pre @ t) m [] = p1 @ t" by blast
  from Cons have IH: "\<exists>pre' k. remove_between c1 c2 cs (q @ t, j) = (pre' @ t, k)" for q j
    by simp
  show ?case
  proof (cases "includes_str m c1 \<and> includes_str m c2")
    case True
    with p1 IH [of p1 "n + 1"] show ?thesis by simp
  next
    case False
    with IH [of pre n] show ?thesis by auto
  qed
qed

lemma componentRegex_close:
  obtains front where "componentRegex n = seq (front @ [lit ''</mxCell>''])"
proof
  show "componentRegex n = seq ([lit ''<mxCell'', Many (CNot ''>''), lit (''value='' @ dq),
      Many (CNot dq), lit n, Many (CNot dq), lit dq, Many (CNot ''>''), lit ''>'', Lazy CAny] @
      [lit ''</mxCell>''])"
    by (simp add: componentRegex_def)
qed

lemma connectionRegex_close:
  obtains front where "connectionRegex i = seq (front @ [lit ''</mxCell>''])"
proof
  show "connectionRegex i = seq ([lit ''<mxCell'', Many (CNot ''>''),
      Alt (lit ''source'') (lit ''target''), lit (''='' @ dq), lit i, lit dq, Many (CNot ''>''),
      lit ''>'', Lazy CAny] @ [lit ''</mxCell>''])"
    by (simp add: connectionRegex_def)
qed

lemma edgeRegex_close:
  obtains front where "edgeRegex = seq (front @ [lit ''</mxCell>''])"
proof
  show "edgeRegex = seq ([lit ''<mxCell'', Many (CNot ''>''), lit (''edge='' @ dq @ ''1'' @ dq),
      Many (CNot ''>''), lit ''>'', Lazy CAny] @ [lit ''</mxCell>''])"
    by (simp add: edgeRegex_def)
qed

lemma removeComponent_keeps_tail:
  assumes t: "\<not> includes_str (toUpperCase t) ''</MXCELL>''" and lt: "starts_with ''<'' t"
    and u: "id_usable syn n (pre @ t)"
  shows "ends_with (snd (removeComponent syn (pre @ t) n)) t"
proof -
  define xml where "xml = pre @ t"
  define ms where "ms = match_all True (componentRegex n) xml"
  obtain front where f: "componentRegex n = seq (front @ [lit ''</mxCell>''])"
    by (rule componentRegex_close)
  have "\<forall>m \<in> set ms. closes m"
    unfolding ms_def f closes_iff using match_all_closes by blast
  from remove_each_keep_tail [OF t lt this, of pre] obtain p1 where
    p1: "remove_each ms xml = p1 @ t" unfolding xml_def by blast
  have x: "ends_with xml t" unfolding ends_with_iff xml_def by blast
  have e1: "ends_with (p1 @ t) t" unfolding ends_with_iff by blast
  show ?thesis
  proof (cases "ms = []")
    case True
    then show ?thesis
      unfolding removeComponent_def Let_def xml_def [symmetric] ms_def [symmetric]
      using x by simp
  next
    case False
    show ?thesis
    proof (cases "js_match True (idRegex n) xml")
      case None
      with False show ?thesis
        unfolding removeComponent_def Let_def xml_def [symmetric] ms_def [symmetric] p1
        using e1 by simp
    next
      case (Some mc)
      obtain m c where mc: "mc = (m, c)" by (cases mc)
      define i where "i = grp_text c 1"
      from u Some mc have pi: "plain i \<or> syn i = None"
        unfolding id_usable_def xml_def [symmetric] i_def by simp
      obtain fr where g: "connectionRegex i = seq (fr @ [lit ''</mxCell>''])"
        by (rule connectionRegex_close)
      from replace_all_keep_tail [OF t lt, of fr "[]" p1] obtain p2 where
        p2: "replace_all True (connectionRegex i) [] (p1 @ t) = p2 @ t" unfolding g by blast
      have e2: "ends_with (p2 @ t) t" unfolding ends_with_iff by blast
      show ?thesis
      proof (cases "plain i")
        case True
        with False Some mc show ?thesis
          unfolding removeComponent_def Let_def xml_def [symmetric] ms_def [symmetric] p1
          using e2 p2 by (simp add: i_def)
      next
        case False
        with pi have "syn i = None" by simp
        with False \<open>ms \<noteq> []\<close> Some mc show ?thesis
          unfolding removeComponent_def Let_def xml_def [symmetric] ms_def [symmetric] p1
          using x by (simp add: i_def)
      qed
    qed
  qed
qed

lemma removeConnections_keeps_tail:
  assumes t: "\<not> includes_str (toUpperCase t) ''</MXCELL>''" and lt: "starts_with ''<'' t"
  shows "ends_with (fst (snd (removeConnections (pre @ t) c1 c2))) t"
proof -
  define xml where "xml = pre @ t"
  define ms where "ms = match_all True edgeRegex xml"
  obtain front where f: "edgeRegex = seq (front @ [lit ''</mxCell>''])"
    by (rule edgeRegex_close)
  have cl: "\<forall>m \<in> set ms. closes m"
    unfolding ms_def f closes_iff using match_all_closes by blast
  from remove_between_keep_tail [OF t lt cl, of "arg_text c1" "arg_text c2" pre 0]
  obtain p1 k where p1: "remove_between (arg_text c1) (arg_text c2) ms (xml, 0) = (p1 @ t, k)"
    unfolding xml_def by blast
  from replace_all_keep_tail [OF t lt, of front "[]" pre] obtain p2 where
    p2: "replace_all True edgeRegex [] xml = p2 @ t" unfolding f xml_def by blast
  have x: "ends_with xml t" unfolding ends_with_iff xml_def by blast
  have e1: "ends_with (p1 @ t) t" unfolding ends_with_iff by blast
  have e2: "ends_with (p2 @ t) t" unfolding ends_with_iff by blast
  show ?thesis
    unfolding removeConnections_def Let_def xml_def [symmetric] ms_def [symmetric] p1 p2
    using x e1 e2 by simp
qed

text \<open>
  Claim C10, amended. The deletion patterns of Remove and DisconnectEdges run from an
  opening \<^verbatim>\<open><mxCell\<close> to a closing tag \<^verbatim>\<open></mxCell>\<close>, so a cell tag written in self-closing
  form is deleted only together with the text up to a closing tag behind it. When no
  closing tag \<^verbatim>\<open></mxCell>\<close> (in whatever letter case) follows it, the tag and all text behind
  it are kept: the document that DisconnectEdges returns ends with them, and so does the
  document that Remove returns, provided the identifier that Remove finds has no
  character of the pattern syntax or the pattern built from it is rejected. Here \<open>t\<close> is
  the text of the document from the self-closing tag on.
\<close>

theorem self_closing_kept:
  assumes "\<not> includes_str (toUpperCase t) ''</MXCELL>''" and "starts_with ''<'' t"
    and "id_usable syn componentName (pre @ t)"
  shows "ends_with (snd (removeComponent syn (pre @ t) componentName)) t \<and>
         ends_with (fst (snd (removeConnections (pre @ t) component1 component2))) t"
  using removeComponent_keeps_tail [OF assms] removeConnections_keeps_tail [OF assms(1,2)]
  by simp

theorem self_closing_kept_witness:
  "\<not> includes_str (toUpperCase kept_tail) ''</MXCELL>'' \<and> starts_with ''<'' kept_tail \<and>
   id_usable (\<lambda>t. None) ''A'' (kept_front @ kept_tail) \<and>
   ends_with (snd (removeComponent (\<lambda>t. None) (kept_front @ kept_tail) ''A'')) kept_tail \<and>
   ends_with (fst (snd (removeConnections (kept_front @ kept_tail) None None))) kept_tail \<and>
   removeComponent (\<lambda>t. None) (kept_front @ kept_tail) ''A'' =
     (True, ''<mxGraphModel><root>'' @ kept_tail) \<and>
   removeComponent (\<lambda>t. None) (kept_front @ kept_tail) ''GPU'' = (False, kept_front @ kept_tail) \<and>
   removeConnections (kept_front @ kept_tail) None None =
     (False, kept_front @ kept_tail, ''No connections found to remove'')"
proof -
  have h1: "\<not> includes_str (toUpperCase kept_tail) ''</MXCELL>''" by code_simp
  have h2: "starts_with ''<'' kept_tail" by code_simp
  have h3: "id_usable (\<lambda>t. None) ''A'' (kept_front @ kept_tail)" by code_simp
  have r1: "removeComponent (\<lambda>t. None) (kept_front @ kept_tail) ''A'' =
     (True, ''<mxGraphModel><root>'' @ kept_tail)" by code_simp
  have r2: "removeComponent (\<lambda>t. None) (kept_front @ kept_tail) ''GPU'' =
     (False, kept_front @ kept_tail)" by code_simp
  have r3: "removeConnections (kept_front @ kept_tail) None None =
     (False, kept_front @ kept_tail, ''No connections found to remove'')" by code_simp
  from self_closing_kept [OF h1 h2 h3, of None None] h1 h2 h3 show ?thesis
    unfolding r1 r2 r3 by simp
qed

text \<open>
  The claim as stated fails: an opening tag that ends in \<^verbatim>\<open>/>\<close> is matched like any other,
  and the match runs on to the closing tag of a later element.
\<close>

theorem self_closing_deleted_counterexample:
  "removeConnections (stub_doc @ plain_cell) None None =
     (True, [], ''Removed 1 arrow(s)/connection(s) from the diagram'') \<and>
   removeComponent (\<lambda>t. None) (stub_doc @ plain_cell) ''GPU'' = (True, [])"
  by code_simp

end
